theory Spec2Isabelle
  imports Main "HOL-Library.Sublist" "HOL-Library.Word"
begin

section \<open>JavaScript strings\<close>

text \<open>
  Strings are character lists. \<open>indexOf text pat start\<close> is
  \<^verbatim>\<open>text.indexOf(pat, start)\<close>: the least index \<open>i \<ge> start\<close> at which \<open>pat\<close> occurs,
  \<open>None\<close> for the result \<open>-1\<close>. \<open>str_slice text s e\<close> is \<^verbatim>\<open>text.slice(s, e)\<close> for
  non-negative arguments.
\<close>

primrec find_at :: "string \<Rightarrow> string \<Rightarrow> nat \<Rightarrow> nat option" where
  "find_at pat [] k = (if pat = [] then Some k else None)"
| "find_at pat (c # cs) k =
     (if prefix pat (c # cs) then Some k else find_at pat cs (Suc k))"

definition indexOf :: "string \<Rightarrow> string \<Rightarrow> nat \<Rightarrow> nat option" where
  "indexOf text pat start = find_at pat (drop start text) (min start (length text))"

definition str_slice :: "string \<Rightarrow> nat \<Rightarrow> nat \<Rightarrow> string" where
  "str_slice text s e = take (e - s) (drop s text)"

section \<open>Textual patch extraction (\<open>findPatchBlocks\<close>)\<close>

definition patch_begin :: string where
  "patch_begin = ''*** Begin Patch''"

definition patch_end :: string where
  "patch_end = ''*** End Patch''"

function findPatchBlocks_loop :: "string \<Rightarrow> nat \<Rightarrow> string list \<Rightarrow> string list" where
  "findPatchBlocks_loop text idx blocks =
     (case indexOf text patch_begin idx of
        None \<Rightarrow> blocks
      | Some s \<Rightarrow>
          (case indexOf text patch_end s of
             None \<Rightarrow> blocks
           | Some e \<Rightarrow>
               findPatchBlocks_loop text (e + length patch_end)
                 (blocks @ [str_slice text s (e + length patch_end)])))"
  by pat_completeness auto
termination
proof (relation "measure (\<lambda>(text, idx, blocks). length text - idx)")
  show "wf (measure (\<lambda>(text, idx, blocks). length text - idx))"
    by simp
next
  fix t0 :: string and idx :: nat and blocks :: "string list" and s e :: nat
  assume b: "indexOf t0 patch_begin idx = Some s"
    and e: "indexOf t0 patch_end s = Some e"
  have scan: "find_at pat t k = Some i \<Longrightarrow> k \<le> i \<and> i + length pat \<le> k + length t"
    for pat t k i
  proof (induction t arbitrary: k)
    case Nil
    then show ?case by (simp split: if_splits)
  next
    case (Cons c cs)
    show ?case
    proof (cases "prefix pat (c # cs)")
      case True
      with Cons.prems show ?thesis
        by (auto dest: prefix_length_le)
    next
      case False
      with Cons.prems have "find_at pat cs (Suc k) = Some i" by simp
      from Cons.IH [OF this] show ?thesis by simp
    qed
  qed
  have bounds: "indexOf t pat st = Some i \<Longrightarrow> pat \<noteq> [] \<Longrightarrow> st \<le> i \<and> i + length pat \<le> length t"
    for pat t st i
  proof -
    assume a: "indexOf t pat st = Some i" and ne: "pat \<noteq> []"
    show "st \<le> i \<and> i + length pat \<le> length t"
    proof (cases "st \<le> length t")
      case True
      with scan [of pat "drop st t" "min st (length t)" i] a show ?thesis
        by (simp add: indexOf_def min_def)
    next
      case False
      with a ne show ?thesis by (simp add: indexOf_def)
    qed
  qed
  from bounds [OF b] have "idx \<le> s" by (simp add: patch_begin_def)
  moreover from bounds [OF e] have "s \<le> e" "e + length patch_end \<le> length t0"
    by (simp_all add: patch_end_def)
  ultimately show "((t0, e + length patch_end, blocks @ [str_slice t0 s (e + length patch_end)]),
      (t0, idx, blocks)) \<in> measure (\<lambda>(text, idx, blocks). length text - idx)"
    by (simp add: patch_end_def)
qed

definition findPatchBlocks :: "string \<Rightarrow> string list" where
  "findPatchBlocks text = findPatchBlocks_loop text 0 []"

section \<open>Specification of patch extraction\<close>

text \<open>
  The specification, in the words of the design: the text is scanned for non-overlapping
  occurrences of the begin marker and the end marker; each complete span is extracted, in
  order of appearance; a begin marker with no following end marker yields nothing.
  \<open>patch_spans src k sp\<close> holds when \<open>sp\<close> lists the index pairs (start, end) of the complete
  spans of \<open>src\<close> from index \<open>k\<close> on.
\<close>

definition occurs_at :: "string \<Rightarrow> string \<Rightarrow> nat \<Rightarrow> bool" where
  "occurs_at pat text i \<longleftrightarrow> str_slice text i (i + length pat) = pat"

definition first_occ :: "string \<Rightarrow> string \<Rightarrow> nat \<Rightarrow> nat \<Rightarrow> bool" where
  "first_occ pat text k i \<longleftrightarrow>
     k \<le> i \<and> occurs_at pat text i \<and> (\<forall>j. k \<le> j \<and> j < i \<longrightarrow> \<not> occurs_at pat text j)"

inductive patch_spans :: "string \<Rightarrow> nat \<Rightarrow> (nat \<times> nat) list \<Rightarrow> bool" for src where
  no_begin: "\<forall>i\<ge>k. \<not> occurs_at patch_begin src i \<Longrightarrow> patch_spans src k []"
| unterminated:
    "first_occ patch_begin src k s \<Longrightarrow> \<forall>i\<ge>s. \<not> occurs_at patch_end src i \<Longrightarrow>
     patch_spans src k []"
| span:
    "first_occ patch_begin src k s \<Longrightarrow> first_occ patch_end src s e \<Longrightarrow>
     patch_spans src (e + length patch_end) sp \<Longrightarrow>
     patch_spans src k ((s, e + length patch_end) # sp)"

definition well_formed_span :: "string \<Rightarrow> nat \<times> nat \<Rightarrow> bool" where
  "well_formed_span t se \<longleftrightarrow>
     (case se of (s, e) \<Rightarrow>
        s + length patch_begin + length patch_end \<le> e \<and> e \<le> length t \<and>
        prefix patch_begin (str_slice t s e) \<and> suffix patch_end (str_slice t s e))"


section \<open>JavaScript values\<close>

text \<open>
  A value that came out of \<^verbatim>\<open>JSON.parse\<close>. Numbers are kept abstract (type \<open>'n\<close>): the
  model never computes with them, it only asks whether one is truthy and how it prints,
  and both are left to the platform. An object is an association list of its own
  properties. A value that may be \<^verbatim>\<open>undefined\<close> is an \<open>option\<close>, \<open>None\<close> standing for
  \<^verbatim>\<open>undefined\<close>. Characters are the code units below 256.
\<close>

datatype 'n json =
    JNull
  | JBool bool
  | JNum 'n
  | JStr string
  | JArr "'n json list"
  | JObj "(string \<times> 'n json) list"

type_synonym 'n jsval = "'n json option"

text \<open>Exceptions the engine raises in the modelled code, and the result of a call.\<close>

datatype js_exn = TypeError | SyntaxError | Rejection string

datatype 'a outcome = Returns 'a | Throws js_exn

text \<open>
  What the code takes from the platform (Node.js), as parameters of the model:
  \<^verbatim>\<open>JSON.parse\<close> (\<open>None\<close> when it throws), \<^verbatim>\<open>JSON.stringify\<close> (with and without
  indentation), the truthiness and the printing of a number, the decoding
  \<^verbatim>\<open>Buffer.from(s, 'base64').toString('utf8')\<close> (which never throws), the fresh
  suffix of the \<open>k\<close>-th generated identifier of a request (\<^verbatim>\<open>Math.random\<close>,
  \<^verbatim>\<open>Date.now\<close>), and the regular-expression engine on the fence pattern of
  \<open>0chat.js\<close> (the first group of its match, \<open>None\<close> when it does not match).
\<close>

record 'n platform =
  json_parse :: "string \<Rightarrow> 'n json option"
  json_stringify :: "'n json \<Rightarrow> string"
  json_stringify_pretty :: "'n json \<Rightarrow> string"
  num_truthy :: "'n \<Rightarrow> bool"
  num_toString :: "'n \<Rightarrow> string"
  base64_decode_utf8 :: "string \<Rightarrow> string"
  fresh_suffix :: "nat \<Rightarrow> string"
  fence_group :: "string \<Rightarrow> string option"

text \<open>\<^verbatim>\<open>x?.k\<close>, and \<^verbatim>\<open>x.k\<close> where \<open>x\<close> is known not to be nullish: own properties only.\<close>

fun get :: "'n jsval \<Rightarrow> string \<Rightarrow> 'n jsval" where
  "get (Some (JObj kvs)) k = map_of kvs k"
| "get _ k = None"

definition truthy :: "'n platform \<Rightarrow> 'n jsval \<Rightarrow> bool" where
  "truthy P v =
     (case v of
        None \<Rightarrow> False
      | Some JNull \<Rightarrow> False
      | Some (JBool b) \<Rightarrow> b
      | Some (JNum n) \<Rightarrow> num_truthy P n
      | Some (JStr s) \<Rightarrow> s \<noteq> []
      | Some (JArr xs) \<Rightarrow> True
      | Some (JObj kvs) \<Rightarrow> True)"

text \<open>\<^verbatim>\<open>a || b\<close> and \<^verbatim>\<open>a ?? b\<close>.\<close>

definition js_or :: "'n platform \<Rightarrow> 'n jsval \<Rightarrow> 'n jsval \<Rightarrow> 'n jsval" where
  "js_or P a b = (if truthy P a then a else b)"

definition nullish :: "'n jsval \<Rightarrow> bool" where
  "nullish v \<longleftrightarrow> v = None \<or> v = Some JNull"

definition js_coalesce :: "'n jsval \<Rightarrow> 'n jsval \<Rightarrow> 'n jsval" where
  "js_coalesce a b = (if nullish a then b else a)"

text \<open>\<^verbatim>\<open>typeof v === "string"\<close> with the string, and \<^verbatim>\<open>Array.isArray(v)\<close> with the elements.\<close>

definition as_string :: "'n jsval \<Rightarrow> string option" where
  "as_string v = (case v of Some (JStr s) \<Rightarrow> Some s | _ \<Rightarrow> None)"

definition as_array :: "'n jsval \<Rightarrow> 'n json list option" where
  "as_array v = (case v of Some (JArr xs) \<Rightarrow> Some xs | _ \<Rightarrow> None)"

text \<open>
  \<^verbatim>\<open>String.prototype.trim\<close>: the white space of the code units below 256 is tab, line
  feed, vertical tab, form feed, carriage return, space and the no-break space.
\<close>

definition is_space :: "char \<Rightarrow> bool" where
  "is_space c \<longleftrightarrow> of_char c \<in> {9, 10, 11, 12, 13, 32, 160 :: nat}"

definition str_trim :: "string \<Rightarrow> string" where
  "str_trim s = rev (dropWhile is_space (rev (dropWhile is_space s)))"

text \<open>
  Conversion to a string (\<^verbatim>\<open>v.toString()\<close> on a truthy value, and the conversion of the
  elements in \<^verbatim>\<open>Array.prototype.join\<close>, which prints \<^verbatim>\<open>null\<close> as the empty string).
  An object prints as \<^verbatim>\<open>[object Object]\<close> through \<^verbatim>\<open>Object.prototype.toString\<close>; an
  object with an own property \<^verbatim>\<open>toString\<close> has a value there that is not callable (it
  came from JSON), and the conversion throws a \<^verbatim>\<open>TypeError\<close>.
\<close>

fun js_toString :: "'n platform \<Rightarrow> 'n json \<Rightarrow> string outcome"
  and js_join :: "'n platform \<Rightarrow> string \<Rightarrow> 'n json list \<Rightarrow> string outcome" where
  "js_toString P JNull = Returns ''null''"
| "js_toString P (JBool b) = Returns (if b then ''true'' else ''false'')"
| "js_toString P (JNum n) = Returns (num_toString P n)"
| "js_toString P (JStr s) = Returns s"
| "js_toString P (JArr xs) = js_join P '','' xs"
| "js_toString P (JObj kvs) =
     (if ''toString'' \<in> fst ` set kvs then Throws TypeError else Returns ''[object Object]'')"
| "js_join P sep [] = Returns []"
| "js_join P sep (x # xs) =
     (case (if x = JNull then Returns [] else js_toString P x) of
        Throws e \<Rightarrow> Throws e
      | Returns s \<Rightarrow>
          (if xs = [] then Returns s
           else (case js_join P sep xs of
                   Throws e \<Rightarrow> Throws e
                 | Returns r \<Rightarrow> Returns (s @ sep @ r))))"

text \<open>\<^verbatim>\<open>s.split(c)\<close> for a one-character separator: always at least one segment.\<close>

definition split_on :: "char \<Rightarrow> string \<Rightarrow> string list" where
  "split_on sep s =
     foldr (\<lambda>c acc. if c = sep then [] # acc
                     else (case acc of [] \<Rightarrow> [[c]] | w # ws \<Rightarrow> (c # w) # ws)) s [[]]"

text \<open>\<^verbatim>\<open>s.replace(/a/g, b)\<close> for single characters.\<close>

definition replace_char :: "char \<Rightarrow> char \<Rightarrow> string \<Rightarrow> string" where
  "replace_char a b s = map (\<lambda>c. if c = a then b else c) s"


section \<open>PKCE generation (\<open>test_gpt.js\<close>)\<close>

type_synonym byte = "8 word"

text \<open>
  \<^verbatim>\<open>buf.toString('base64')\<close>, the platform's standard base64 with padding: three bytes
  give four characters, a last group of one or two bytes is padded with \<^verbatim>\<open>=\<close>.
\<close>

definition std_alphabet :: string where
  "std_alphabet = ''ABCDEFGHIJKLMNOPQRSTUVWXYZabcdefghijklmnopqrstuvwxyz0123456789+/''"

definition std_char :: "nat \<Rightarrow> char" where
  "std_char i = std_alphabet ! (i mod 64)"

fun to_base64 :: "byte list \<Rightarrow> string" where
  "to_base64 [] = []"
| "to_base64 [a] =
     [std_char (unat a div 4), std_char (unat a mod 4 * 16), CHR ''='', CHR ''='']"
| "to_base64 [a, b] =
     [std_char (unat a div 4), std_char (unat a mod 4 * 16 + unat b div 16),
      std_char (unat b mod 16 * 4), CHR ''='']"
| "to_base64 (a # b # c # rest) =
     [std_char (unat a div 4), std_char (unat a mod 4 * 16 + unat b div 16),
      std_char (unat b mod 16 * 4 + unat c div 64), std_char (unat c mod 64)]
     @ to_base64 rest"

text \<open>\<^verbatim>\<open>s.replace(/=+$/g, '')\<close>: the trailing padding is removed.\<close>

definition strip_padding :: "string \<Rightarrow> string" where
  "strip_padding s = rev (dropWhile (\<lambda>c. c = CHR ''='') (rev s))"

definition base64url :: "byte list \<Rightarrow> string" where
  "base64url buf =
     strip_padding (replace_char CHR ''/'' CHR ''_'' (replace_char CHR ''+'' CHR ''-'' (to_base64 buf)))"

text \<open>The two character replacements of \<open>base64url\<close> together.\<close>

definition url_of_std :: "string \<Rightarrow> string" where
  "url_of_std s = replace_char CHR ''/'' CHR ''_'' (replace_char CHR ''+'' CHR ''-'' s)"

text \<open>
  \<^verbatim>\<open>hash.update(s)\<close> reads a string as UTF-8: a code unit below 128 is one byte, one
  from 128 to 255 is two.
\<close>

definition utf8_bytes :: "string \<Rightarrow> byte list" where
  "utf8_bytes s =
     concat (map (\<lambda>c. if of_char c < (128 :: nat) then [of_nat (of_char c)]
                       else [of_nat (192 + of_char c div 64), of_nat (128 + of_char c mod 64)]) s)"

text \<open>
  \<open>genPkce\<close>: \<open>randomBytes\<close> is \<^verbatim>\<open>crypto.randomBytes\<close> and \<open>sha256\<close> the digest of
  \<^verbatim>\<open>crypto.createHash('sha256')\<close>, both parameters. \<open>genState\<close> draws 24 bytes.
\<close>

definition genPkce :: "(nat \<Rightarrow> byte list) \<Rightarrow> (byte list \<Rightarrow> byte list) \<Rightarrow> string \<times> string" where
  "genPkce randomBytes sha256 =
     (let verifier = base64url (randomBytes 48);
          challenge = base64url (sha256 (utf8_bytes verifier))
      in (verifier, challenge))"

definition genState :: "(nat \<Rightarrow> byte list) \<Rightarrow> string" where
  "genState randomBytes = base64url (randomBytes 24)"

subsection \<open>Specification: URL-safe base64 without padding\<close>

text \<open>
  The encoding the design names (RFC 4648, section 5, padding omitted): the bytes are read
  as a bit string, cut into groups of six bits (the last one filled with zero bits), and
  each group is written as one character of the URL-safe alphabet.
\<close>

definition url_alphabet :: string where
  "url_alphabet = ''ABCDEFGHIJKLMNOPQRSTUVWXYZabcdefghijklmnopqrstuvwxyz0123456789-_''"

definition byte_bits :: "byte \<Rightarrow> bool list" where
  "byte_bits b = map (\<lambda>i. bit b i) [7, 6, 5, 4, 3, 2, 1, 0]"

fun groups_of_six :: "bool list \<Rightarrow> bool list list" where
  "groups_of_six (a # b # c # d # e # f # rest) = [a, b, c, d, e, f] # groups_of_six rest"
| "groups_of_six [] = []"
| "groups_of_six bs = [take 6 (bs @ replicate 6 False)]"

definition bits_value :: "bool list \<Rightarrow> nat" where
  "bits_value bs = foldl (\<lambda>n b. 2 * n + (if b then 1 else 0)) 0 bs"

definition base64url_spec :: "byte list \<Rightarrow> string" where
  "base64url_spec bytes =
     map (\<lambda>g. url_alphabet ! bits_value g) (groups_of_six (concat (map byte_bits bytes)))"


section \<open>Token claims (\<open>parseJwtClaims\<close> in \<open>test_gpt.js\<close> and \<open>gg.js\<close>)\<close>

text \<open>
  The middle segment, with the URL-safe characters put back, decoded by the platform:
  \<^verbatim>\<open>Buffer.from(payload, 'base64').toString('utf8')\<close>.
\<close>

definition jwt_payload_text :: "'n platform \<Rightarrow> string \<Rightarrow> string" where
  "jwt_payload_text P seg =
     base64_decode_utf8 P (replace_char CHR ''_'' CHR ''/'' (replace_char CHR ''-'' CHR ''+'' seg))"

text \<open>
  The body of the \<^verbatim>\<open>try\<close> block of \<open>test_gpt.js\<close>: calling \<^verbatim>\<open>split\<close> on a value that
  is not a string throws, fewer than two segments return \<^verbatim>\<open>{}\<close>, \<^verbatim>\<open>JSON.parse\<close> may
  throw, a falsy parse result is replaced by \<^verbatim>\<open>{}\<close>.
\<close>

definition parseJwtClaims_try :: "'n platform \<Rightarrow> 'n jsval \<Rightarrow> 'n json outcome" where
  "parseJwtClaims_try P rawJwt =
     (case rawJwt of
        Some (JStr s) \<Rightarrow>
          (case split_on CHR ''.'' s of
             h # p # rest \<Rightarrow>
               (case json_parse P (jwt_payload_text P p) of
                  None \<Rightarrow> Throws SyntaxError
                | Some v \<Rightarrow> Returns (if truthy P (Some v) then v else JObj []))
           | _ \<Rightarrow> Returns (JObj []))
      | _ \<Rightarrow> Throws TypeError)"

definition parseJwtClaims :: "'n platform \<Rightarrow> 'n jsval \<Rightarrow> 'n json outcome" where
  "parseJwtClaims P rawJwt =
     (case parseJwtClaims_try P rawJwt of
        Throws e \<Rightarrow> Returns (JObj [])
      | Returns v \<Rightarrow> Returns v)"

text \<open>
  The variant of \<open>gg.js\<close>: the second segment is taken by destructuring, so with a single
  segment \<^verbatim>\<open>payload\<close> is \<^verbatim>\<open>undefined\<close> and \<^verbatim>\<open>payload.replace\<close> throws; the
  \<^verbatim>\<open>catch\<close> returns \<^verbatim>\<open>null\<close>.
\<close>

definition gg_parseJwtClaims_try :: "'n platform \<Rightarrow> 'n jsval \<Rightarrow> 'n json outcome" where
  "gg_parseJwtClaims_try P rawJwt =
     (case rawJwt of
        Some (JStr s) \<Rightarrow>
          (case split_on CHR ''.'' s of
             h # p # rest \<Rightarrow>
               (case json_parse P (jwt_payload_text P p) of
                  None \<Rightarrow> Throws SyntaxError
                | Some v \<Rightarrow> Returns v)
           | _ \<Rightarrow> Throws TypeError)
      | _ \<Rightarrow> Throws TypeError)"

definition gg_parseJwtClaims :: "'n platform \<Rightarrow> 'n jsval \<Rightarrow> 'n json outcome" where
  "gg_parseJwtClaims P rawJwt =
     (case gg_parseJwtClaims_try P rawJwt of
        Throws e \<Rightarrow> Returns JNull
      | Returns v \<Rightarrow> Returns v)"

section \<open>Credential records (\<open>test_gpt.js\<close>)\<close>

record 'n creds =
  apiKey :: "'n jsval"
  token :: "'n jsval"
  accountId :: "'n jsval"

definition auth_claim_key :: string where
  "auth_claim_key = ''https://api.openai.com/auth''"

text \<open>
  The account id read from an id token:
  \<^verbatim>\<open>claims = parseJwtClaims(t) || {}\<close>, \<^verbatim>\<open>oa = (claims && claims[key]) || {}\<close>, then
  \<^verbatim>\<open>oa.chatgpt_account_id\<close> when it is a string.
\<close>

definition claims_account :: "'n platform \<Rightarrow> 'n jsval \<Rightarrow> string option" where
  "claims_account P id_token =
     (let claims = (case parseJwtClaims P id_token of
                      Returns v \<Rightarrow> js_or P (Some v) (Some (JObj []))
                    | Throws e \<Rightarrow> Some (JObj []));
          oa = js_or P (if truthy P claims then get claims auth_claim_key else claims)
                 (Some (JObj []))
      in as_string (get oa ''chatgpt_account_id''))"

text \<open>
  \<open>readAuthFromHome\<close>: \<open>file\<close> is the content of \<^verbatim>\<open>~/.codex/auth.json\<close>, \<open>None\<close> when
  the file does not exist. The whole body is in a \<^verbatim>\<open>try\<close> whose \<^verbatim>\<open>catch\<close> returns
  \<^verbatim>\<open>null\<close>. The three fields of the record, from the parsed file \<open>raw\<close>:
\<close>

definition auth_apiKey :: "'n jsval \<Rightarrow> 'n jsval" where
  "auth_apiKey raw =
     (case as_string (get raw ''OPENAI_API_KEY'') of
        Some k \<Rightarrow> if str_trim k \<noteq> [] then Some (JStr (str_trim k)) else None
      | None \<Rightarrow> None)"

definition auth_token :: "'n platform \<Rightarrow> 'n jsval \<Rightarrow> 'n jsval" where
  "auth_token P raw =
     (let access = get (get raw ''tokens'') ''access_token''
      in if truthy P access then access else None)"

definition auth_accountId :: "'n platform \<Rightarrow> 'n jsval \<Rightarrow> 'n jsval" where
  "auth_accountId P raw =
     (let idt = get (get raw ''tokens'') ''id_token'';
          acc1 = (if truthy P idt
                  then (case claims_account P idt of
                          Some a \<Rightarrow> Some (JStr a)
                        | None \<Rightarrow> None)
                  else None);
          stored = get (get raw ''tokens'') ''account_id''
      in if \<not> truthy P acc1 \<and> truthy P stored then stored else acc1)"

definition readAuthFromHome :: "'n platform \<Rightarrow> string option \<Rightarrow> 'n creds option outcome" where
  "readAuthFromHome P file =
     (case file of
        None \<Rightarrow> Returns None
      | Some content \<Rightarrow>
          (case json_parse P content of
             None \<Rightarrow> Returns None
           | Some raw \<Rightarrow>
               (let out = \<lparr>apiKey = auth_apiKey (Some raw), token = auth_token P (Some raw),
                           accountId = auth_accountId P (Some raw)\<rparr>
                in Returns (if truthy P (apiKey out) \<or> truthy P (token out)
                            then Some out else None))))"

text \<open>
  \<open>readSessionJson\<close>: only the parse is inside the \<^verbatim>\<open>try\<close>; the property reads on
  \<^verbatim>\<open>raw\<close> that follow throw when the file holds \<^verbatim>\<open>null\<close>. The fields written by the
  script are preferred, the shapes of \<^verbatim>\<open>auth.json\<close> are the fallback. The record is
  returned when its token is truthy.
\<close>

definition string_field :: "'n jsval \<Rightarrow> string \<Rightarrow> 'n jsval" where
  "string_field raw k = (case as_string (get raw k) of Some s \<Rightarrow> Some (JStr s) | None \<Rightarrow> None)"

definition session_token :: "'n platform \<Rightarrow> 'n jsval \<Rightarrow> 'n jsval" where
  "session_token P raw =
     (let t0 = string_field raw ''token''
      in if \<not> truthy P t0
         then js_or P (js_or P (get (get raw ''tokens'') ''access_token'')
                         (get raw ''access_token'')) None
         else t0)"

definition session_accountId :: "'n platform \<Rightarrow> 'n jsval \<Rightarrow> 'n jsval" where
  "session_accountId P raw =
     (let a0 = string_field raw ''accountId'';
          a1 = (if \<not> truthy P a0
                then js_or P (get (get raw ''tokens'') ''account_id'') None
                else a0);
          idt = get (get raw ''tokens'') ''id_token''
      in if \<not> truthy P a1 \<and> truthy P idt
         then (case claims_account P idt of
                 Some a \<Rightarrow> Some (JStr a)
               | None \<Rightarrow> a1)
         else a1)"

definition session_apiKey :: "'n platform \<Rightarrow> 'n jsval \<Rightarrow> 'n jsval" where
  "session_apiKey P raw =
     (let k0 = string_field raw ''apiKey''
      in case as_string (get raw ''OPENAI_API_KEY'') of
           Some k \<Rightarrow>
             if \<not> truthy P k0 \<and> str_trim k \<noteq> [] then Some (JStr (str_trim k)) else k0
         | None \<Rightarrow> k0)"

definition readSessionJson :: "'n platform \<Rightarrow> string option \<Rightarrow> 'n creds option outcome" where
  "readSessionJson P file =
     (case file of
        None \<Rightarrow> Returns None
      | Some content \<Rightarrow>
          (case json_parse P content of
             None \<Rightarrow> Returns None
           | Some raw \<Rightarrow>
               if raw = JNull then Throws TypeError
               else
                 (let norm = \<lparr>apiKey = session_apiKey P (Some raw),
                              token = session_token P (Some raw),
                              accountId = session_accountId P (Some raw)\<rparr>
                  in Returns (if truthy P (token norm) then Some norm else None))))"

text \<open>
  The guard of \<open>askQuestion\<close>, which refuses a session with
  \<^verbatim>\<open>!session || (!session.apiKey && !session.token)\<close>.
\<close>

definition usable :: "'n platform \<Rightarrow> 'n creds option \<Rightarrow> bool" where
  "usable P session =
     (case session of
        None \<Rightarrow> False
      | Some c \<Rightarrow> truthy P (apiKey c) \<or> truthy P (token c))"

section \<open>The login callback listener (\<open>startLoginServerAndAuth\<close>)\<close>

text \<open>
  The world the listener changes: the content of \<^verbatim>\<open>session.json\<close> (\<open>None\<close> when the file
  does not exist) and whether the server's shutdown has been scheduled.
\<close>

record login_world =
  session_file :: "string option"
  close_scheduled :: bool

datatype reply_body = Body string | ServerError js_exn

record http_reply =
  status :: nat
  location :: "string option"
  body :: reply_body

text \<open>
  A request, as \<^verbatim>\<open>new URL(req.url, ...)\<close> reads it (\<open>BadUrl\<close> when the constructor
  throws); a query parameter that is absent is \<open>None\<close>.
\<close>

datatype callback_request =
    Request (pathname: string) (code_param: "string option") (state_param: "string option")
  | BadUrl js_exn

text \<open>
  The identity provider: the reply to the code exchange and to the API-key exchange
  (\<open>httpsPostForm\<close>, which rejects on a status outside 2xx or a body that does not
  parse), and the clock.
\<close>

record 'n oauth_env =
  code_exchange :: "string \<Rightarrow> 'n json outcome"
  key_exchange :: "'n jsval \<Rightarrow> 'n json outcome"
  clock_now :: 'n

definition exchangeCodeForTokens :: "'n platform \<Rightarrow> 'n oauth_env \<Rightarrow> string \<Rightarrow> 'n json outcome" where
  "exchangeCodeForTokens P env code =
     (case code_exchange env code of
        Throws e \<Rightarrow> Throws e
      | Returns res \<Rightarrow>
          if res = JNull then Throws TypeError
          else if \<not> truthy P (get (Some res) ''id_token'')
            then Throws (Rejection ''No id_token in token response'')
          else if \<not> truthy P (get (Some res) ''refresh_token'')
            then Throws (Rejection ''No refresh_token in token response'')
          else Returns res)"

definition exchangeIdTokenForApiKey :: "'n platform \<Rightarrow> 'n oauth_env \<Rightarrow> 'n jsval \<Rightarrow> 'n jsval outcome" where
  "exchangeIdTokenForApiKey P env idToken =
     (case key_exchange env idToken of
        Throws e \<Rightarrow> Throws e
      | Returns res \<Rightarrow>
          if res = JNull then Throws TypeError
          else if \<not> truthy P (get (Some res) ''access_token'')
            then Throws (Rejection ''API key exchange failed'')
          else Returns (get (Some res) ''access_token''))"

text \<open>
  \<open>saveTokens\<close> and \<open>writeSessionJson\<close>: the file receives the token, the account id of
  the id token's claims, the API key and the time; \<^verbatim>\<open>JSON.stringify\<close> leaves out the
  properties that are \<^verbatim>\<open>undefined\<close>.
\<close>

definition session_data :: "'n jsval \<Rightarrow> 'n jsval \<Rightarrow> 'n jsval \<Rightarrow> 'n \<Rightarrow> 'n json" where
  "session_data tok acc key now =
     JObj (concat (map (\<lambda>(k, v). case v of None \<Rightarrow> [] | Some x \<Rightarrow> [(k, x)])
        [(''token'', tok), (''accountId'', acc), (''apiKey'', key), (''savedAt'', Some (JNum now))]))"

definition saveTokens ::
  "'n platform \<Rightarrow> 'n oauth_env \<Rightarrow> 'n json \<Rightarrow> 'n jsval \<Rightarrow> login_world \<Rightarrow> login_world" where
  "saveTokens P env tokens maybeApiKey w =
     (let claims = (case parseJwtClaims P (get (Some tokens) ''id_token'') of
                      Returns v \<Rightarrow> js_or P (Some v) (Some (JObj []))
                    | Throws e \<Rightarrow> Some (JObj []));
          oa = js_or P (if truthy P claims then get claims auth_claim_key else claims)
                 (Some (JObj []));
          acc = js_or P (get oa ''chatgpt_account_id'') None
      in w\<lparr>session_file :=
             Some (json_stringify_pretty P
               (session_data (get (Some tokens) ''access_token'') acc maybeApiKey (clock_now env)))\<rparr>)"

text \<open>The request handler of the listener; \<open>expected\<close> is the state of the session.\<close>

definition callback_handler ::
  "'n platform \<Rightarrow> 'n oauth_env \<Rightarrow> string \<Rightarrow> callback_request \<Rightarrow> login_world
     \<Rightarrow> http_reply \<times> login_world" where
  "callback_handler P env expected req w =
     (case req of
        BadUrl e \<Rightarrow> (\<lparr>status = 500, location = None, body = ServerError e\<rparr>, w)
      | Request path code got \<Rightarrow>
          if path = ''/auth/callback'' then
            (case code of
               None \<Rightarrow>
                 (\<lparr>status = 400, location = None, body = Body ''Invalid state or missing code''\<rparr>, w)
             | Some c \<Rightarrow>
                 if c = [] \<or> got \<noteq> Some expected then
                   (\<lparr>status = 400, location = None, body = Body ''Invalid state or missing code''\<rparr>, w)
                 else
                   (case exchangeCodeForTokens P env c of
                      Throws e \<Rightarrow> (\<lparr>status = 500, location = None, body = ServerError e\<rparr>, w)
                    | Returns tokens \<Rightarrow>
                        (let key = (case exchangeIdTokenForApiKey P env (get (Some tokens) ''id_token'') of
                                      Throws e \<Rightarrow> None
                                    | Returns k \<Rightarrow> k);
                             w' = saveTokens P env tokens key w
                         in (\<lparr>status = 302, location = Some ''/success'', body = Body []\<rparr>,
                             w'\<lparr>close_scheduled := True\<rparr>))))
          else if path = ''/success'' then
            (\<lparr>status = 200, location = None,
              body = Body ''<html><body><h1>Login successful</h1>You can close this tab.</body></html>''\<rparr>, w)
          else (\<lparr>status = 404, location = None, body = Body ''Not Found''\<rparr>, w))"


section \<open>Events and the response stream\<close>

text \<open>
  The events written to the client, by their wire names:
  \<^verbatim>\<open>response.created\<close> (with the response identifier, when one is carried),
  \<^verbatim>\<open>response.reasoning_summary_text.delta\<close>, \<^verbatim>\<open>response.output_text.delta\<close>,
  \<^verbatim>\<open>response.output_item.done\<close> with an item of type \<^verbatim>\<open>message\<close> (its text),
  \<^verbatim>\<open>function_call\<close> (name, arguments, call identifier), \<^verbatim>\<open>custom_tool_call\<close> (name,
  input, call identifier) or \<^verbatim>\<open>local_shell_call\<close> (command, call identifier),
  \<^verbatim>\<open>response.failed\<close> (the error message), \<^verbatim>\<open>response.completed\<close> (the response
  identifier and the usage, when carried) and \<^verbatim>\<open>error\<close>.
\<close>

record usage =
  input_tokens :: nat
  output_tokens :: nat
  total_tokens :: nat

definition zero_usage :: usage where
  "zero_usage = \<lparr>input_tokens = 0, output_tokens = 0, total_tokens = 0\<rparr>"

datatype 'n event =
    Created "string option"
  | ReasoningDelta string
  | TextDelta string
  | Message "'n json"
  | FunctionCall string string string
  | CustomToolCall string string string
  | LocalShellCall "'n json" string
  | Failed "'n json"
  | Completed "string option" "usage option"
  | ErrorEvent

text \<open>
  The response object \<^verbatim>\<open>res\<close>: what has been written, whether \<^verbatim>\<open>res.end()\<close> has been
  called, and how many identifiers the request has generated.
\<close>

record 'n stream =
  written :: "'n event list"
  ended :: bool
  draws :: nat

definition new_stream :: "'n stream" where
  "new_stream = \<lparr>written = [], ended = False, draws = 0\<rparr>"

definition sse :: "'n event \<Rightarrow> 'n stream \<Rightarrow> 'n stream" where
  "sse ev st = st\<lparr>written := written st @ [ev]\<rparr>"

definition res_end :: "'n stream \<Rightarrow> 'n stream" where
  "res_end st = st\<lparr>ended := True\<rparr>"

definition randId :: "'n platform \<Rightarrow> string \<Rightarrow> 'n stream \<Rightarrow> string \<times> 'n stream" where
  "randId P pfx st = (pfx @ ''_'' @ fresh_suffix P (draws st), st\<lparr>draws := Suc (draws st)\<rparr>)"

definition is_created :: "'n event \<Rightarrow> bool" where
  "is_created ev = (case ev of Created i \<Rightarrow> True | _ \<Rightarrow> False)"

definition is_completed :: "'n event \<Rightarrow> bool" where
  "is_completed ev = (case ev of Completed i u \<Rightarrow> True | _ \<Rightarrow> False)"

definition is_message :: "'n event \<Rightarrow> bool" where
  "is_message ev = (case ev of Message t \<Rightarrow> True | _ \<Rightarrow> False)"

definition is_tool_call :: "'n event \<Rightarrow> bool" where
  "is_tool_call ev =
     (case ev of
        FunctionCall n a i \<Rightarrow> True
      | CustomToolCall n a i \<Rightarrow> True
      | LocalShellCall c i \<Rightarrow> True
      | _ \<Rightarrow> False)"

section \<open>The event translator (\<open>sendCodexResponse\<close>)\<close>

definition pushAssistantText :: "'n platform \<Rightarrow> 'n jsval \<Rightarrow> 'n stream \<Rightarrow> 'n stream" where
  "pushAssistantText P t st =
     (case t of
        Some v \<Rightarrow> if truthy P t then sse (Message v) st else st
      | None \<Rightarrow> st)"

definition isFinal :: "'n jsval \<Rightarrow> bool" where
  "isFinal json \<longleftrightarrow>
     get json ''final'' = Some (JBool True) \<or> get json ''done'' = Some (JBool True) \<or>
     get json ''finish'' = Some (JBool True)"

text \<open>\<^verbatim>\<open>typeof v === "string" && v\<close>.\<close>

definition string_and_self :: "'n jsval \<Rightarrow> 'n jsval" where
  "string_and_self v = (case v of Some (JStr s) \<Rightarrow> Some (JStr s) | _ \<Rightarrow> Some (JBool False))"

text \<open>\<^verbatim>\<open>c?.type === "text" && typeof c.text === "string"\<close>.\<close>

definition is_text_item :: "'n json \<Rightarrow> bool" where
  "is_text_item c \<longleftrightarrow>
     get (Some c) ''type'' = Some (JStr ''text'') \<and> as_string (get (Some c) ''text'') \<noteq> None"

definition finalMsg :: "'n platform \<Rightarrow> 'n jsval \<Rightarrow> 'n jsval" where
  "finalMsg P json =
     js_or P (string_and_self (get json ''assistant_message''))
    (js_or P (string_and_self (get json ''output''))
    (js_or P (string_and_self (get json ''content''))
    (js_or P (case as_array (get json ''content'') of
                None \<Rightarrow> Some (JBool False)
              | Some cs \<Rightarrow>
                  (case find is_text_item cs of
                     None \<Rightarrow> None
                   | Some c \<Rightarrow> get (Some c) ''text''))
             (Some (JStr ''Done.'')))))"

definition emit_content :: "'n platform \<Rightarrow> 'n jsval \<Rightarrow> 'n stream \<Rightarrow> 'n stream" where
  "emit_content P json st =
     (case get json ''content'' of
        Some (JStr s) \<Rightarrow> pushAssistantText P (Some (JStr s)) st
      | Some (JArr cs) \<Rightarrow>
          fold (\<lambda>c st. if is_text_item c then pushAssistantText P (get (Some c) ''text'') st else st) cs st
      | _ \<Rightarrow> st)"

text \<open>\<^verbatim>\<open>o && o.type === "output_text" && typeof o.text === "string"\<close>.\<close>

definition is_output_item :: "'n platform \<Rightarrow> 'n json \<Rightarrow> bool" where
  "is_output_item P item \<longleftrightarrow>
     truthy P (Some item) \<and> get (Some item) ''type'' = Some (JStr ''output_text'') \<and>
     as_string (get (Some item) ''text'') \<noteq> None"

definition emit_output :: "'n platform \<Rightarrow> 'n jsval \<Rightarrow> 'n stream \<Rightarrow> 'n stream" where
  "emit_output P json st =
     (case get json ''output'' of
        Some (JStr s) \<Rightarrow> pushAssistantText P (Some (JStr s)) st
      | Some (JArr os) \<Rightarrow>
          fold (\<lambda>item st. if is_output_item P item
                           then pushAssistantText P (get (Some item) ''text'') st else st) os st
      | _ \<Rightarrow> st)"

text \<open>
  \<open>emitFunctionCall\<close>: a string is passed through, any other value is serialised
  (\<^verbatim>\<open>JSON.stringify(obj ?? {})\<close>).
\<close>

definition emitFunctionCall :: "'n platform \<Rightarrow> string \<Rightarrow> 'n jsval \<Rightarrow> 'n stream \<Rightarrow> 'n stream" where
  "emitFunctionCall P toolName obj st =
     (let (callId, st1) = randId P ''call_fn'' st;
          argsStr = (case obj of
                       Some (JStr s) \<Rightarrow> s
                     | Some JNull \<Rightarrow> json_stringify P (JObj [])
                     | None \<Rightarrow> json_stringify P (JObj [])
                     | Some v \<Rightarrow> json_stringify P v)
      in sse (FunctionCall toolName argsStr callId) st1)"

definition shell_names :: "string list" where
  "shell_names = [''shell'', ''exec'', ''bash'', ''sh'', ''run'']"

text \<open>
  The command string of a shell-like call: \<open>None\<close> is \<^verbatim>\<open>undefined\<close>; joining a list
  converts its elements and may throw.
\<close>

definition shell_command :: "'n platform \<Rightarrow> 'n jsval \<Rightarrow> string option outcome" where
  "shell_command P args =
     (case as_string (get args ''cmd'') of
        Some c \<Rightarrow> Returns (Some c)
      | None \<Rightarrow>
          (case as_array (get args ''command'') of
             Some xs \<Rightarrow>
               (case js_join P '' '' xs of Throws e \<Rightarrow> Throws e | Returns s \<Rightarrow> Returns (Some s))
           | None \<Rightarrow>
               (case as_string (get args ''command'') of
                  Some c \<Rightarrow> Returns (Some c)
                | None \<Rightarrow>
                    (case as_array args of
                       Some xs \<Rightarrow>
                         (case js_join P '' '' xs of
                            Throws e \<Rightarrow> Throws e
                          | Returns s \<Rightarrow> Returns (Some s))
                     | None \<Rightarrow> Returns None))))"

text \<open>The payload of \<^verbatim>\<open>exec_command\<close>: the command and the execution options present.\<close>

definition shell_payload :: "'n jsval \<Rightarrow> string \<Rightarrow> 'n json" where
  "shell_payload args cmdStr =
     JObj ([(''cmd'', JStr cmdStr)]
       @ (case get args ''yield_time_ms'' of Some (JNum n) \<Rightarrow> [(''yield_time_ms'', JNum n)] | _ \<Rightarrow> [])
       @ (case get args ''max_output_tokens'' of
            Some (JNum n) \<Rightarrow> [(''max_output_tokens'', JNum n)] | _ \<Rightarrow> [])
       @ (case get args ''shell'' of Some (JStr s) \<Rightarrow> [(''shell'', JStr s)] | _ \<Rightarrow> [])
       @ (case get args ''login'' of Some (JBool b) \<Rightarrow> [(''login'', JBool b)] | _ \<Rightarrow> []))"

definition patch_text :: "'n jsval \<Rightarrow> string option" where
  "patch_text args =
     (case as_string (get args ''input'') of
        Some s \<Rightarrow> Some s
      | None \<Rightarrow>
          (case as_string (get args ''patch'') of
             Some s \<Rightarrow> Some s
           | None \<Rightarrow> as_string args))"

text \<open>
  The generic part of \<open>emitToolCall\<close>, after the shell case: a patch call with a non-empty
  patch text is a custom tool call, anything else a function call under its own name.
\<close>

definition emit_patch_or_generic :: "'n platform \<Rightarrow> string \<Rightarrow> 'n jsval \<Rightarrow> 'n stream \<Rightarrow> 'n stream" where
  "emit_patch_or_generic P name args st =
     (case (if name = ''apply_patch'' then patch_text args else None) of
        Some (c # cs) \<Rightarrow>
          (let (callId, st1) = randId P ''call_apply_patch'' st
           in sse (CustomToolCall ''apply_patch'' (c # cs) callId) st1)
      | _ \<Rightarrow> emitFunctionCall P name (js_coalesce args (Some (JObj []))) st)"

definition emitToolCall :: "'n platform \<Rightarrow> 'n jsval \<Rightarrow> 'n jsval \<Rightarrow> 'n stream \<Rightarrow> 'n stream outcome" where
  "emitToolCall P nameIn argsIn st =
     (case (case nameIn of
              Some v \<Rightarrow> if truthy P nameIn then js_toString P v else Returns ''unknown_function''
            | None \<Rightarrow> Returns ''unknown_function'') of
        Throws e \<Rightarrow> Throws e
      | Returns name \<Rightarrow>
          (let args = (case argsIn of
                         Some (JStr s) \<Rightarrow>
                           (case json_parse P s of Some v \<Rightarrow> Some v | None \<Rightarrow> argsIn)
                       | _ \<Rightarrow> argsIn)
           in if name \<in> set shell_names then
                (case shell_command P args of
                   Throws e \<Rightarrow> Throws e
                 | Returns (Some (c # cs)) \<Rightarrow>
                     Returns (emitFunctionCall P ''exec_command'' (Some (shell_payload args (c # cs))) st)
                 | Returns _ \<Rightarrow> Returns (emit_patch_or_generic P name args st))
              else Returns (emit_patch_or_generic P name args st)))"

text \<open>The name and the arguments of a call entry (or of the root object).\<close>

definition call_name :: "'n platform \<Rightarrow> 'n jsval \<Rightarrow> 'n jsval" where
  "call_name P call =
     js_or P (get call ''type'') (js_or P (get call ''name'')
       (js_or P (get call ''tool'') (get call ''function'')))"

definition call_args :: "'n jsval \<Rightarrow> 'n jsval" where
  "call_args call =
     js_coalesce (get call ''arguments'') (js_coalesce (get call ''parameters'')
       (js_coalesce (get call ''params'') (get call ''args'')))"

text \<open>The loop over the tool calls: an exception leaves the loop with what was written.\<close>

fun emit_tool_calls :: "'n platform \<Rightarrow> 'n json list \<Rightarrow> 'n stream \<Rightarrow> 'n stream \<times> js_exn option" where
  "emit_tool_calls P [] st = (st, None)"
| "emit_tool_calls P (call # calls) st =
     (case emitToolCall P (call_name P (Some call)) (call_args (Some call)) st of
        Throws e \<Rightarrow> (st, Some e)
      | Returns st1 \<Rightarrow> emit_tool_calls P calls st1)"

definition emit_tools :: "'n platform \<Rightarrow> 'n jsval \<Rightarrow> 'n stream \<Rightarrow> 'n stream \<times> js_exn option" where
  "emit_tools P json st =
     (let tools = (case as_array (get json ''tool_calls'') of Some ts \<Rightarrow> ts | None \<Rightarrow> [])
      in if tools \<noteq> [] then emit_tool_calls P tools st
         else if truthy P json \<and> truthy P (call_name P json) then
           (case emitToolCall P (call_name P json) (call_args json) st of
              Throws e \<Rightarrow> (st, Some e)
            | Returns st1 \<Rightarrow> (st1, None))
         else (st, None))"

text \<open>
  \<open>sendCodexResponse\<close>: \<open>opts\<close> is \<^verbatim>\<open>opts.responseId\<close>. The result is the stream and the
  exception, if one was thrown; then nothing more was written and the stream was not
  ended by this function.
\<close>

definition sendCodexResponse ::
  "'n platform \<Rightarrow> 'n jsval \<Rightarrow> string option \<Rightarrow> 'n stream \<Rightarrow> 'n stream \<times> js_exn option" where
  "sendCodexResponse P json opts st =
     (let (responseId, st1) = (case opts of
                                 Some (c # cs) \<Rightarrow> (c # cs, st)
                               | _ \<Rightarrow> randId P ''resp'' st);
          st2 = sse (Created (Some responseId)) st1;
          st3 = (case as_string (get (get json ''reasoning'') ''summary'') of
                   Some s \<Rightarrow> if str_trim s \<noteq> [] then sse (ReasoningDelta s) st2 else st2
                 | None \<Rightarrow> st2);
          st4 = (if isFinal json then pushAssistantText P (finalMsg P json) st3 else st3);
          st5 = (if \<not> isFinal json then emit_content P json st4 else st4);
          st6 = (if \<not> isFinal json then emit_output P json st5 else st5);
          (st7, exn) = (if \<not> isFinal json then emit_tools P json st6 else (st6, None))
      in case exn of
           Some e \<Rightarrow> (st7, Some e)
         | None \<Rightarrow>
             (res_end (sse (Completed (Some responseId) (Some zero_usage)) st7), None))"

text \<open>
  The handler of \<^verbatim>\<open>POST /v1/responses\<close> around it: \<open>answer\<close> is the outcome of
  \<^verbatim>\<open>receivedRequest(req.body)\<close>; any exception is answered with an \<^verbatim>\<open>error\<close> event.
\<close>

definition fake_llm_handler :: "'n platform \<Rightarrow> 'n jsval outcome \<Rightarrow> 'n stream" where
  "fake_llm_handler P answer =
     (case answer of
        Throws e \<Rightarrow> res_end (sse ErrorEvent new_stream)
      | Returns json \<Rightarrow>
          (case sendCodexResponse P json None new_stream of
             (st, None) \<Rightarrow> st
           | (st, Some e) \<Rightarrow> res_end (sse ErrorEvent st)))"

subsection \<open>Specification of the final message\<close>

text \<open>
  The design's rule for a final envelope: the text is chosen by first-match priority among
  the explicit assistant-message field, the generic output field and the content field (a
  string, or the first text-typed element of an array), with the literal \<^verbatim>\<open>Done.\<close> as
  the fallback. A field matches when it gives a non-empty string.
\<close>

definition text_candidate :: "'n jsval \<Rightarrow> string option" where
  "text_candidate v = (case v of Some (JStr (c # cs)) \<Rightarrow> Some (c # cs) | _ \<Rightarrow> None)"

definition content_candidate :: "'n jsval \<Rightarrow> string option" where
  "content_candidate v =
     (case v of
        Some (JStr s) \<Rightarrow> text_candidate v
      | Some (JArr cs) \<Rightarrow>
          (case find is_text_item cs of
             Some c \<Rightarrow> text_candidate (get (Some c) ''text'')
           | None \<Rightarrow> None)
      | _ \<Rightarrow> None)"

definition final_text_spec :: "'n jsval \<Rightarrow> string" where
  "final_text_spec json =
     (case find (\<lambda>c. c \<noteq> None)
             [text_candidate (get json ''assistant_message''),
              text_candidate (get json ''output''),
              content_candidate (get json ''content'')] of
        Some (Some s) \<Rightarrow> s
      | _ \<Rightarrow> ''Done.'')"

definition summary_events :: "'n jsval \<Rightarrow> 'n event list" where
  "summary_events json =
     (case as_string (get (get json ''reasoning'') ''summary'') of
        Some s \<Rightarrow> if str_trim s \<noteq> [] then [ReasoningDelta s] else []
      | None \<Rightarrow> [])"

definition response_id :: "'n platform \<Rightarrow> string option \<Rightarrow> 'n stream \<Rightarrow> string" where
  "response_id P opts st =
     (case opts of Some (c # cs) \<Rightarrow> c # cs | _ \<Rightarrow> ''resp_'' @ fresh_suffix P (draws st))"


section \<open>The generic adapter (\<open>0chat.js\<close>)\<close>

text \<open>\<^verbatim>\<open>text.lastIndexOf(pat)\<close> and \<^verbatim>\<open>text.includes(pat)\<close>.\<close>

definition lastIndexOf :: "string \<Rightarrow> string \<Rightarrow> nat option" where
  "lastIndexOf text pat =
     (case indexOf (rev text) (rev pat) 0 of
        None \<Rightarrow> None
      | Some j \<Rightarrow> Some (length text - j - length pat))"

definition str_includes :: "string \<Rightarrow> string \<Rightarrow> bool" where
  "str_includes text pat \<longleftrightarrow> indexOf text pat 0 \<noteq> None"

text \<open>
  \<open>tryParseJson\<close> of \<open>0chat.js\<close> on a string: the whole text, then the content of a fenced
  block, then the span from the first \<^verbatim>\<open>{\<close> to the last \<^verbatim>\<open>}\<close>; \<^verbatim>\<open>null\<close> when all fail.
\<close>

definition tryParseJson_adapter :: "'n platform \<Rightarrow> string \<Rightarrow> 'n json" where
  "tryParseJson_adapter P t =
     (case json_parse P t of
        Some v \<Rightarrow> v
      | None \<Rightarrow>
          (case (case fence_group P t of Some (c # cs) \<Rightarrow> json_parse P (c # cs) | _ \<Rightarrow> None) of
             Some v \<Rightarrow> v
           | None \<Rightarrow>
               (case (indexOf t ''{'' 0, lastIndexOf t ''}'') of
                  (Some a, Some b) \<Rightarrow>
                    if a < b
                    then (case json_parse P (str_slice t a (b + 1)) of Some v \<Rightarrow> v | None \<Rightarrow> JNull)
                    else JNull
                | _ \<Rightarrow> JNull)))"

definition is_shell_call :: "'n json \<Rightarrow> bool" where
  "is_shell_call tc \<longleftrightarrow>
     get (Some tc) ''type'' = Some (JStr ''function'') \<and> get (Some tc) ''name'' = Some (JStr ''shell'') \<and>
     as_array (get (get (Some tc) ''arguments'') ''command'') \<noteq> None"

definition is_update_plan :: "'n json \<Rightarrow> bool" where
  "is_update_plan tc \<longleftrightarrow>
     get (Some tc) ''type'' = Some (JStr ''function'') \<and>
     get (Some tc) ''name'' = Some (JStr ''update_plan'')"

definition map_tool_call :: "'n platform \<Rightarrow> 'n json \<Rightarrow> 'n stream \<Rightarrow> 'n stream" where
  "map_tool_call P tc st =
     (if is_shell_call tc then
        (let (callId, st1) = randId P ''call_shell'' st
         in case get (get (Some tc) ''arguments'') ''command'' of
              Some cmd \<Rightarrow> sse (LocalShellCall cmd callId) st1
            | None \<Rightarrow> st1)
      else if is_update_plan tc then
        (let (callId, st1) = randId P ''call_update_plan'' st;
             args = (case js_coalesce (get (Some tc) ''arguments'') (Some (JObj [])) of
                       Some v \<Rightarrow> v | None \<Rightarrow> JObj [])
         in sse (FunctionCall ''update_plan'' (json_stringify P args) callId) st1)
      else sse (Message (JStr (json_stringify P tc))) st)"

definition mapJsonToSse :: "'n platform \<Rightarrow> 'n json \<Rightarrow> 'n stream \<Rightarrow> 'n stream" where
  "mapJsonToSse P obj st =
     (let st1 = (case as_string (get (get (Some obj) ''reasoning'') ''summary'') of
                   Some s \<Rightarrow> if str_trim s \<noteq> [] then sse (ReasoningDelta (str_trim s)) st else st
                 | None \<Rightarrow> st);
          tools = (case as_array (get (Some obj) ''tool_calls'') of Some ts \<Rightarrow> ts | None \<Rightarrow> []);
          st2 = fold (map_tool_call P) tools st1;
          contents = (case as_array (get (Some obj) ''content'') of Some cs \<Rightarrow> cs | None \<Rightarrow> [])
      in fold (\<lambda>c st. if is_text_item c
                        then (case get (Some c) ''text'' of Some t \<Rightarrow> sse (Message t) st | None \<Rightarrow> st)
                        else st) contents st2)"

text \<open>The handler; \<open>llmReply\<close> is the text \<open>askLlm\<close> returned (it never rejects).\<close>

definition adapter_handler :: "'n platform \<Rightarrow> string \<Rightarrow> 'n stream" where
  "adapter_handler P llmReply =
     (let (responseId, st1) = randId P ''resp'' new_stream;
          st2 = sse (Created (Some responseId)) st1;
          obj = tryParseJson_adapter P llmReply;
          st3 = (if truthy P (Some obj) then mapJsonToSse P obj st2
                 else sse (Message (JStr llmReply)) st2)
      in res_end (sse (Completed (Some responseId) (Some zero_usage)) st3))"

section \<open>The proxy of \<open>mock-openai\<close> (\<open>handleResponses\<close>)\<close>

text \<open>
  The call to the local adapter, \<open>postJson\<close>: the promise resolves with the \<^verbatim>\<open>response\<close>
  field of the reply (or the empty string), or rejects with an \<^verbatim>\<open>Error\<close> carrying a
  message (a transport error, a timeout, a body that does not parse). The status of the
  reply is not looked at.
\<close>

datatype 'a promise = Resolved 'a | Rejected string

record proxy_env =
  mock_qwen :: bool
  expect_json :: bool

text \<open>
  The regular expression of the proxy, begin marker, anything (as little as possible), end
  marker: the match starts at the first begin marker and ends with the first end marker
  after it.
\<close>

definition regex_patch_match :: "string \<Rightarrow> string option" where
  "regex_patch_match text =
     (case indexOf text patch_begin 0 of
        None \<Rightarrow> None
      | Some s \<Rightarrow>
          (case indexOf text patch_end (s + length patch_begin) of
             None \<Rightarrow> None
           | Some e \<Rightarrow> Some (str_slice text s (e + length patch_end))))"

function chunk_deltas :: "string \<Rightarrow> nat \<Rightarrow> string list" where
  "chunk_deltas text i =
     (if i < length text then str_slice text i (i + 400) # chunk_deltas text (i + 400) else [])"
  by pat_completeness auto
termination
  by (relation "measure (\<lambda>(text, i). length text - i)") auto

text \<open>The patch of a parsed reply, in the shapes the proxy supports.\<close>

definition json_patch :: "'n json \<Rightarrow> string option" where
  "json_patch obj =
     (case obj of
        JObj kvs \<Rightarrow>
          (if map_of kvs ''type'' = Some (JStr ''apply_patch'') \<and> as_string (map_of kvs ''patch'') \<noteq> None
             then as_string (map_of kvs ''patch'')
           else if map_of kvs ''action'' = Some (JStr ''apply_patch'') \<and> as_string (map_of kvs ''patch'') \<noteq> None
             then as_string (map_of kvs ''patch'')
           else as_string (map_of kvs ''apply_patch''))
      | _ \<Rightarrow> None)"

definition emit_patch_call :: "'n platform \<Rightarrow> string \<Rightarrow> 'n stream \<Rightarrow> 'n stream" where
  "emit_patch_call P patch st =
     (let (callId, st1) = randId P ''call'' st
      in sse (CustomToolCall ''apply_patch'' patch callId) st1)"

text \<open>
  The mapping of the upstream text: \<open>handled\<close> and the text after the strict-JSON step,
  then the heuristic, then the default message with its deltas.
\<close>

definition proxy_map_text :: "'n platform \<Rightarrow> proxy_env \<Rightarrow> string \<Rightarrow> 'n stream \<Rightarrow> 'n stream" where
  "proxy_map_text P env text0 st =
     (let (handled, text, st1) =
            (if expect_json env then
               (case json_parse P text0 of
                  None \<Rightarrow> (False, text0, st)
                | Some obj \<Rightarrow>
                    (case json_patch obj of
                       Some (c # cs) \<Rightarrow> (True, text0, emit_patch_call P (c # cs) st)
                     | _ \<Rightarrow>
                         (False,
                          (case as_string (get (Some obj) ''text'') of Some t \<Rightarrow> t | None \<Rightarrow> text0),
                          st)))
             else (False, text0, st))
      in if handled then st1
         else (case regex_patch_match text of
                 Some (c # cs) \<Rightarrow> emit_patch_call P (c # cs) st1
               | _ \<Rightarrow>
                   sse (Message (JStr text))
                     (fold (\<lambda>part st. sse (TextDelta part) st) (chunk_deltas text 0) st1)))"

definition handleResponses ::
  "'n platform \<Rightarrow> proxy_env \<Rightarrow> 'n jsval promise \<Rightarrow> 'n stream \<times> js_exn option" where
  "handleResponses P env upstream =
     (let (responseId, st1) = randId P ''resp'' new_stream;
          st2 = sse (Created (Some responseId)) st1;
          reply = (if mock_qwen env
                   then Resolved (Some (JStr ''This is a mocked Qwen response used for local testing without internet.''))
                   else upstream)
      in case reply of
           Rejected m \<Rightarrow>
             (let message = (if m \<noteq> [] then m else ''Upstream error'');
                  st3 = sse (Failed (JStr message)) st2
              in (res_end (sse (Completed (Some responseId) (Some zero_usage)) st3), None))
         | Resolved fullText \<Rightarrow>
             (case (case fullText of
                      Some v \<Rightarrow> if truthy P fullText then js_toString P v else Returns []
                    | None \<Rightarrow> Returns []) of
                Throws e \<Rightarrow> (st2, Some e)
              | Returns text0 \<Rightarrow>
                  (res_end (sse (Completed (Some responseId) (Some zero_usage))
                     (proxy_map_text P env text0 st2)), None)))"

section \<open>The Qwen bridge (\<open>/v1/responses\<close> of \<open>part_001\<close>)\<close>

text \<open>
  The state of one request: the response stream, the handler's flags \<^verbatim>\<open>finished\<close> and
  \<^verbatim>\<open>emittedAnyTool\<close>, and the text received so far.
\<close>

record 'n bridge =
  out :: "'n stream"
  finished :: bool
  emittedAnyTool :: bool
  fullText :: string

text \<open>\<open>writeSse\<close> of the bridge writes nothing once the response has been ended.\<close>

definition writeSse :: "'n event \<Rightarrow> 'n bridge \<Rightarrow> 'n bridge" where
  "writeSse ev b = (if ended (out b) then b else b\<lparr>out := sse ev (out b)\<rparr>)"

definition markFinished :: "'n bridge \<Rightarrow> 'n bridge" where
  "markFinished b = b\<lparr>finished := True, out := res_end (out b)\<rparr>"

definition fresh_id :: "'n platform \<Rightarrow> string \<Rightarrow> 'n bridge \<Rightarrow> string \<times> 'n bridge" where
  "fresh_id P pfx b =
     (pfx @ ''_'' @ fresh_suffix P (draws (out b)),
      b\<lparr>out := (out b)\<lparr>draws := Suc (draws (out b))\<rparr>\<rparr>)"

definition stripJsonFence :: "string \<Rightarrow> string" where
  "stripJsonFence text =
     (let t = str_trim text
      in if prefix ''```'' t then
           (case indexOf t [CHR 0x0A] 0 of
              None \<Rightarrow> t
            | Some firstNl \<Rightarrow>
                (let withoutFence = drop (firstNl + 1) t
                 in case lastIndexOf withoutFence ''```'' of
                      None \<Rightarrow> t
                    | Some endFence \<Rightarrow> str_trim (str_slice withoutFence 0 endFence)))
         else t)"

definition tryParseJson_bridge :: "'n platform \<Rightarrow> string \<Rightarrow> 'n json" where
  "tryParseJson_bridge P text =
     (let t = stripJsonFence text
      in case json_parse P t of
           Some v \<Rightarrow> v
         | None \<Rightarrow>
             (case (indexOf t ''{'' 0, lastIndexOf t ''}'') of
                (Some a, Some b) \<Rightarrow>
                  if a < b
                  then (case json_parse P (str_slice t a (b + 1)) of Some v \<Rightarrow> v | None \<Rightarrow> JNull)
                  else JNull
              | _ \<Rightarrow> JNull))"

text \<open>
  The patch a tool-call entry carries, when the entry is named \<^verbatim>\<open>apply_patch\<close> and the
  \<^verbatim>\<open>input\<close> of its arguments object is a string that holds both markers.
\<close>

definition entry_patch :: "'n platform \<Rightarrow> 'n json \<Rightarrow> string option" where
  "entry_patch P tc =
     (if get (Some tc) ''name'' \<noteq> Some (JStr ''apply_patch'') then None
      else (case (case get (Some tc) ''arguments'' of
                    Some (JObj kvs) \<Rightarrow> map_of kvs ''input''
                  | _ \<Rightarrow> None) of
              Some (JStr input) \<Rightarrow>
                if str_includes input patch_begin \<and> str_includes input patch_end then Some input else None
            | _ \<Rightarrow> None))"

definition patch_call :: "'n platform \<Rightarrow> string \<Rightarrow> 'n bridge \<Rightarrow> 'n bridge" where
  "patch_call P input b =
     (let (callId, b1) = fresh_id P ''call'' b
      in writeSse (FunctionCall ''apply_patch'' (json_stringify P (JObj [(''input'', JStr input)])) callId) b1)"

fun emit_first_patch :: "'n platform \<Rightarrow> 'n json list \<Rightarrow> 'n bridge \<Rightarrow> 'n bridge" where
  "emit_first_patch P [] b = b"
| "emit_first_patch P (tc # tcs) b =
     (case entry_patch P tc of
        Some input \<Rightarrow> (patch_call P input b)\<lparr>emittedAnyTool := True\<rparr>
      | None \<Rightarrow> emit_first_patch P tcs b)"

definition synthesized_patch :: "string \<Rightarrow> string" where
  "synthesized_patch path =
     ''*** Begin Patch'' @ [CHR 0x0A] @ ''*** Update File: '' @ path @ [CHR 0x0A] @ ''@@'' @ [CHR 0x0A]
     @ ''+function subtract(a, b) { return a - b; }'' @ [CHR 0x0A] @ ''+'' @ [CHR 0x0A]
     @ ''+function multiply(a, b) { return a * b; }'' @ [CHR 0x0A] @ ''*** End Patch''"

definition complete_response :: "'n platform \<Rightarrow> string \<Rightarrow> 'n bridge \<Rightarrow> 'n bridge" where
  "complete_response P pfx b =
     (let (responseId, b1) = fresh_id P pfx b
      in markFinished (writeSse (Completed (Some responseId) None) b1))"

text \<open>
  \<open>emitToolCallsAndEnd\<close>; \<open>intent\<close> is the path that \<open>detectFileUpdateIntent\<close> found in
  the user's text, if any.
\<close>

definition emitToolCallsAndEnd :: "'n platform \<Rightarrow> string option \<Rightarrow> 'n json \<Rightarrow> 'n bridge \<Rightarrow> 'n bridge" where
  "emitToolCallsAndEnd P intent parsed b =
     (if finished b then b
      else
        (let toolCalls = (case as_array (get (Some parsed) ''tool_calls'') of
                            Some ts \<Rightarrow> ts | None \<Rightarrow> []);
             b1 = emit_first_patch P toolCalls b;
             b2 = (case intent of
                     Some (c # cs) \<Rightarrow>
                       if \<not> emittedAnyTool b1 then patch_call P (synthesized_patch (c # cs)) b1 else b1
                   | _ \<Rightarrow> b1)
         in complete_response P ''resp'' b2))"

text \<open>The safety timer, eight seconds after the stream was requested.\<close>

definition fallback_timer :: "'n platform \<Rightarrow> string option \<Rightarrow> 'n bridge \<Rightarrow> 'n bridge" where
  "fallback_timer P intent b =
     (if finished b \<or> emittedAnyTool b then b
      else (case intent of
              Some (c # cs) \<Rightarrow> complete_response P ''resp'' (patch_call P (synthesized_patch (c # cs)) b)
            | _ \<Rightarrow> b))"

definition onDelta :: "'n platform \<Rightarrow> string option \<Rightarrow> string \<Rightarrow> 'n bridge \<Rightarrow> 'n bridge" where
  "onDelta P intent delta b =
     (if finished b then b
      else
        (let b1 = b\<lparr>fullText := fullText b @ delta\<rparr>
         in if 50 < length (fullText b1) \<and> str_includes (fullText b1) ''tool_calls'' then
              (let parsedEarly = tryParseJson_bridge P (fullText b1)
               in if truthy P (Some parsedEarly) \<and>
                     (case as_array (get (Some parsedEarly) ''tool_calls'') of
                        Some tcs \<Rightarrow> \<exists>tc\<in>set tcs. get (Some tc) ''name'' = Some (JStr ''apply_patch'')
                      | None \<Rightarrow> False)
                  then emitToolCallsAndEnd P intent parsedEarly b1
                  else b1)
            else b1))"

text \<open>What reaches the handler while the reply streams in.\<close>

datatype upstream_step = Delta string | TimerFires | ClientCloses

definition bridge_step :: "'n platform \<Rightarrow> string option \<Rightarrow> upstream_step \<Rightarrow> 'n bridge \<Rightarrow> 'n bridge" where
  "bridge_step P intent step b =
     (case step of
        Delta d \<Rightarrow> (if d = [] then b else onDelta P intent d b)
      | TimerFires \<Rightarrow> fallback_timer P intent b
      | ClientCloses \<Rightarrow> b\<lparr>finished := True\<rparr>)"

text \<open>After the stream ended without an error.\<close>

definition on_stream_end :: "'n platform \<Rightarrow> string option \<Rightarrow> 'n bridge \<Rightarrow> 'n bridge" where
  "on_stream_end P intent b =
     (if finished b then b
      else
        (let parsed = tryParseJson_bridge P (fullText b)
         in if truthy P (Some parsed) \<and>
               (truthy P (get (Some parsed) ''tool_calls'') \<or> truthy P (get (Some parsed) ''message''))
            then emitToolCallsAndEnd P intent parsed b
            else
              (let b1 = (case findPatchBlocks (fullText b) of
                           patch # rest \<Rightarrow> patch_call P patch b
                         | [] \<Rightarrow> b)
               in complete_response P ''resp'' b1)))"

text \<open>The \<^verbatim>\<open>catch\<close> block; \<open>m\<close> is the message of the error.\<close>

definition on_error :: "'n platform \<Rightarrow> string \<Rightarrow> 'n bridge \<Rightarrow> 'n bridge" where
  "on_error P m b =
     (let message = (if m \<noteq> [] then m else ''Unknown error'');
          b1 = writeSse (Message (JStr (''Error: '' @ message))) b
      in complete_response P ''resp_err'' b1)"

text \<open>
  A run of the handler: either something before the stream fails (the credentials are not
  configured, the login, the chat creation or the stream request is rejected), or the
  stream delivers its steps and ends, with or without an error.
\<close>

datatype bridge_run = SetupFails string | Streams "upstream_step list" "string option"

definition bridge_start :: "'n stream \<Rightarrow> 'n bridge" where
  "bridge_start res = \<lparr>out = sse (Created None) res, finished = False, emittedAnyTool = False,
     fullText = []\<rparr>"

definition bridge_handler :: "'n platform \<Rightarrow> string option \<Rightarrow> bridge_run \<Rightarrow> 'n bridge" where
  "bridge_handler P intent run =
     (case run of
        SetupFails m \<Rightarrow> on_error P m (bridge_start new_stream)
      | Streams steps fin \<Rightarrow>
          (let b = fold (bridge_step P intent) steps (bridge_start new_stream)
           in case fin of
                Some m \<Rightarrow> on_error P m b
              | None \<Rightarrow> on_stream_end P intent b))"

section \<open>Notions for the properties of the handlers\<close>

text \<open>
  An item is an event that is neither a created nor a completed event. \<open>grows st st'\<close>:
  the stream \<open>st'\<close> holds what \<open>st\<close> held, followed by items only. \<open>tool_calls_of\<close>: the
  tool-call events a bridge has written.
\<close>

definition is_item :: "'n event \<Rightarrow> bool" where
  "is_item ev \<longleftrightarrow> \<not> is_created ev \<and> \<not> is_completed ev"

definition grows :: "'n stream \<Rightarrow> 'n stream \<Rightarrow> bool" where
  "grows st st' \<longleftrightarrow> (\<exists>evs. written st' = written st @ evs \<and> list_all is_item evs)"

definition tool_calls_of :: "'n bridge \<Rightarrow> 'n event list" where
  "tool_calls_of b = filter is_tool_call (written (out b))"

text \<open>
  The invariant of the bridge: at most one tool call has been written, and as long as the
  handler is not finished none has been written and \<^verbatim>\<open>emittedAnyTool\<close> is unset.
\<close>

definition bridge_inv :: "'n bridge \<Rightarrow> bool" where
  "bridge_inv b \<longleftrightarrow>
     length (tool_calls_of b) \<le> 1 \<and> (\<not> finished b \<longrightarrow> tool_calls_of b = [] \<and> \<not> emittedAnyTool b)"

text \<open>
  The order invariant of the specification, on the list of events a handler has written:
  the first event is a created event, the last one a completed event, every event between
  them an item (\<open>framed\<close>), and the two carry the same response identifier
  (\<open>order_invariant\<close>). \<open>open_frame\<close>: a created event followed by items only, the
  state of a response that has not been completed yet.
\<close>

definition created_id :: "'n event \<Rightarrow> string option" where
  "created_id ev = (case ev of Created i \<Rightarrow> i | _ \<Rightarrow> None)"

definition completed_id :: "'n event \<Rightarrow> string option" where
  "completed_id ev = (case ev of Completed i u \<Rightarrow> i | _ \<Rightarrow> None)"

definition completed_usage :: "'n event \<Rightarrow> usage option" where
  "completed_usage ev = (case ev of Completed i u \<Rightarrow> u | _ \<Rightarrow> None)"

definition is_failed :: "'n event \<Rightarrow> bool" where
  "is_failed ev = (case ev of Failed e \<Rightarrow> True | _ \<Rightarrow> False)"

definition open_frame :: "'n event list \<Rightarrow> bool" where
  "open_frame evs = (case evs of [] \<Rightarrow> False | e # rest \<Rightarrow> is_created e \<and> list_all is_item rest)"

definition framed :: "'n event list \<Rightarrow> bool" where
  "framed evs =
     (case evs of
        [] \<Rightarrow> False
      | e # rest \<Rightarrow>
          is_created e \<and> rest \<noteq> [] \<and> list_all is_item (butlast rest) \<and> is_completed (last rest))"

definition order_invariant :: "'n event list \<Rightarrow> bool" where
  "order_invariant evs \<longleftrightarrow>
     framed evs \<and> created_id (hd evs) \<noteq> None \<and> completed_id (last evs) = created_id (hd evs)"

text \<open>
  The shape of the bridge's stream: the response is ended exactly when the handler is
  finished, the created event carries no identifier, no failed event is written, and the
  events are framed, with an identifier in the completed event, once the handler is
  finished and an open frame before.
\<close>

definition bridge_shape :: "'n bridge \<Rightarrow> bool" where
  "bridge_shape b \<longleftrightarrow>
     ended (out b) = finished b \<and> created_id (hd (written (out b))) = None \<and>
     list_all (\<lambda>ev. \<not> is_failed ev) (written (out b)) \<and>
     (if finished b
      then framed (written (out b)) \<and> completed_id (last (written (out b))) \<noteq> None
      else open_frame (written (out b)))"

text \<open>
  The text the deltas of a run deliver, and the condition under which the delta handler
  parses early: more than fifty characters, the word \<^verbatim>\<open>tool_calls\<close>, and a parsed
  value whose \<^verbatim>\<open>tool_calls\<close> is an array with an entry named \<^verbatim>\<open>apply_patch\<close>.
\<close>

fun deltas_text :: "upstream_step list \<Rightarrow> string" where
  "deltas_text [] = []"
| "deltas_text (Delta d # steps) = d @ deltas_text steps"
| "deltas_text (TimerFires # steps) = deltas_text steps"
| "deltas_text (ClientCloses # steps) = deltas_text steps"

definition early_parse :: "'n platform \<Rightarrow> string \<Rightarrow> bool" where
  "early_parse P txt \<longleftrightarrow>
     50 < length txt \<and> str_includes txt ''tool_calls'' \<and>
     truthy P (Some (tryParseJson_bridge P txt)) \<and>
     (case as_array (get (Some (tryParseJson_bridge P txt)) ''tool_calls'') of
        Some tcs \<Rightarrow> \<exists>tc\<in>set tcs. get (Some tc) ''name'' = Some (JStr ''apply_patch'')
      | None \<Rightarrow> False)"

text \<open>
  A patch call is a \<^verbatim>\<open>function_call\<close> event named \<^verbatim>\<open>apply_patch\<close>;
  \<open>patch_calls_only\<close>: every tool call of the list is a patch call. \<open>bridge_idle b txt\<close>:
  the handler has not finished, has written the created event only and has received the
  text \<open>txt\<close>.
\<close>

definition is_patch_call :: "'n event \<Rightarrow> bool" where
  "is_patch_call ev = (case ev of FunctionCall n a i \<Rightarrow> n = ''apply_patch'' | _ \<Rightarrow> False)"

text \<open>
  The events the bridge writes: a created event without identifier, an assistant message,
  a patch call, and a completed event with an identifier and no usage.
\<close>

definition bridge_event :: "'n event \<Rightarrow> bool" where
  "bridge_event ev =
     (case ev of
        Created i \<Rightarrow> i = None
      | Message t \<Rightarrow> True
      | FunctionCall n a i \<Rightarrow> n = ''apply_patch''
      | Completed i u \<Rightarrow> i \<noteq> None \<and> u = None
      | _ \<Rightarrow> False)"

definition patch_calls_only :: "'n event list \<Rightarrow> bool" where
  "patch_calls_only evs = list_all (\<lambda>ev. is_patch_call ev \<or> \<not> is_tool_call ev) evs"

definition bridge_idle :: "'n bridge \<Rightarrow> string \<Rightarrow> bool" where
  "bridge_idle b txt \<longleftrightarrow>
     \<not> finished b \<and> \<not> ended (out b) \<and> \<not> emittedAnyTool b \<and>
     written (out b) = [Created None] \<and> draws (out b) = 0 \<and> fullText b = txt"

subsection \<open>Specification of the bridge's tool call\<close>

text \<open>
  The patch the bridge answers a reply text with, and the events of the answer. When the
  text parses to a value with a \<^verbatim>\<open>tool_calls\<close> or a \<^verbatim>\<open>message\<close>, the patch is the input
  of the first entry of \<^verbatim>\<open>tool_calls\<close> that is named \<^verbatim>\<open>apply_patch\<close> and holds both
  markers, and without such an entry the patch synthesized for the path of the detected
  intent, if there is one. Otherwise the patch is the first patch block of the text. The
  answer is the created event, one \<^verbatim>\<open>function_call\<close> named \<^verbatim>\<open>apply_patch\<close> when there
  is a patch, and the completed event.
\<close>

definition reply_patch_spec :: "'n platform \<Rightarrow> string option \<Rightarrow> string \<Rightarrow> string option" where
  "reply_patch_spec P intent txt =
     (let parsed = tryParseJson_bridge P txt
      in if truthy P (Some parsed) \<and>
            (truthy P (get (Some parsed) ''tool_calls'') \<or> truthy P (get (Some parsed) ''message''))
         then (case List.map_filter (entry_patch P)
                      (case as_array (get (Some parsed) ''tool_calls'') of Some ts \<Rightarrow> ts | None \<Rightarrow> []) of
                 input # rest \<Rightarrow> Some input
               | [] \<Rightarrow> (case intent of Some (c # cs) \<Rightarrow> Some (synthesized_patch (c # cs)) | _ \<Rightarrow> None))
         else (case findPatchBlocks txt of patch # rest \<Rightarrow> Some patch | [] \<Rightarrow> None))"

definition reply_events_spec :: "'n platform \<Rightarrow> string option \<Rightarrow> 'n event list" where
  "reply_events_spec P patch =
     (case patch of
        Some input \<Rightarrow>
          [Created None,
           FunctionCall ''apply_patch'' (json_stringify P (JObj [(''input'', JStr input)]))
             (''call_'' @ fresh_suffix P 0),
           Completed (Some (''resp_'' @ fresh_suffix P 1)) None]
      | None \<Rightarrow> [Created None, Completed (Some (''resp_'' @ fresh_suffix P 0)) None])"

text \<open>Three tool-call entries: a shell call and two patch calls.\<close>

definition example_entries :: "nat json list" where
  "example_entries =
     [JObj [(''name'', JStr ''shell''), (''arguments'', JObj [(''command'', JStr ''ls'')])],
      JObj [(''name'', JStr ''apply_patch''),
            (''arguments'', JObj [(''input'', JStr ''*** Begin Patch one *** End Patch'')])],
      JObj [(''name'', JStr ''apply_patch''),
            (''arguments'', JObj [(''input'', JStr ''*** Begin Patch two *** End Patch'')])]]"

text \<open>Two replies of the model: one with a shell call only, one with the three entries.\<close>

definition shell_reply :: "nat json" where
  "shell_reply = JObj [(''tool_calls'',
     JArr [JObj [(''name'', JStr ''shell''), (''arguments'', JObj [(''command'', JStr ''ls'')])]])]"

definition patch_reply :: "nat json" where
  "patch_reply = JObj [(''tool_calls'', JArr example_entries)]"


section \<open>A platform for the examples\<close>

text \<open>
  The theorems hold for every platform. To evaluate the model on concrete inputs, the
  examples use this one: numbers are natural numbers, printed in decimal and truthy when
  not zero; \<^verbatim>\<open>JSON.parse\<close> knows the texts the examples use (the two replies among them, as
  \<^verbatim>\<open>JSON.stringify\<close> prints them) and rejects every other text; \<^verbatim>\<open>JSON.stringify\<close> prints compactly and escapes the quote, the backslash and
  the line feed (no example holds another character that needs an escape); the base64 decoder knows the two segments the examples use; the \<open>k\<close>-th
  fresh suffix is \<open>k\<close> in decimal; the fence pattern never matches.
\<close>

fun decimal :: "nat \<Rightarrow> string" where
  "decimal n =
     (if n < 10 then [char_of (48 + n)] else decimal (n div 10) @ [char_of (48 + n mod 10)])"

definition escape_char :: "char \<Rightarrow> string" where
  "escape_char c =
     (if c = CHR 0x22 then [CHR 0x5C, CHR 0x22]
      else if c = CHR 0x5C then [CHR 0x5C, CHR 0x5C]
      else if c = CHR 0x0A then [CHR 0x5C, CHR ''n'']
      else [c])"

fun example_stringify :: "nat json \<Rightarrow> string"
  and stringify_elements :: "nat json list \<Rightarrow> string"
  and stringify_properties :: "(string \<times> nat json) list \<Rightarrow> string" where
  "example_stringify JNull = ''null''"
| "example_stringify (JBool b) = (if b then ''true'' else ''false'')"
| "example_stringify (JNum n) = decimal n"
| "example_stringify (JStr s) = [CHR 0x22] @ concat (map escape_char s) @ [CHR 0x22]"
| "example_stringify (JArr xs) = ''['' @ stringify_elements xs @ '']''"
| "example_stringify (JObj kvs) = ''{'' @ stringify_properties kvs @ ''}''"
| "stringify_elements [] = []"
| "stringify_elements (x # xs) =
     example_stringify x @ (if xs = [] then [] else '','' @ stringify_elements xs)"
| "stringify_properties [] = []"
| "stringify_properties (kv # kvs) =
     [CHR 0x22] @ concat (map escape_char (fst kv)) @ [CHR 0x22] @ '':'' @ example_stringify (snd kv)
     @ (if kvs = [] then [] else '','' @ stringify_properties kvs)"

definition example_parse :: "string \<Rightarrow> nat json option" where
  "example_parse s =
     (if s = ''{}'' then Some (JObj [])
      else if s = ''{'' @ [CHR 0x22] @ ''a'' @ [CHR 0x22] @ '':1}''
        then Some (JObj [(''a'', JNum 1)])
      else if s = ''{'' @ [CHR 0x22] @ ''apiKey'' @ [CHR 0x22] @ '':'' @ [CHR 0x22] @ ''sk-test'' @ [CHR 0x22] @ ''}''
        then Some (JObj [(''apiKey'', JStr ''sk-test'')])
      else if s = ''{'' @ [CHR 0x22] @ ''OPENAI_API_KEY'' @ [CHR 0x22] @ '':'' @ [CHR 0x22] @ ''sk-test'' @ [CHR 0x22] @ ''}''
        then Some (JObj [(''OPENAI_API_KEY'', JStr ''sk-test'')])
      else if s = example_stringify shell_reply then Some shell_reply
      else if s = example_stringify patch_reply then Some patch_reply
      else None)"

definition example_decode :: "string \<Rightarrow> string" where
  "example_decode s =
     (if s = ''e30'' then ''{}''
      else if s = ''eyJhIjoxfQ'' then ''{'' @ [CHR 0x22] @ ''a'' @ [CHR 0x22] @ '':1}''
      else [])"

definition example_platform :: "nat platform" where
  "example_platform =
     \<lparr>json_parse = example_parse,
      json_stringify = example_stringify,
      json_stringify_pretty = example_stringify,
      num_truthy = (\<lambda>n. n \<noteq> 0),
      num_toString = decimal,
      base64_decode_utf8 = example_decode,
      fresh_suffix = decimal,
      fence_group = (\<lambda>s. None)\<rparr>"

definition example_env :: "nat oauth_env" where
  "example_env =
     \<lparr>code_exchange = (\<lambda>code. Throws (Rejection ''HTTP 400'')),
      key_exchange = (\<lambda>t. Throws (Rejection ''HTTP 400'')),
      clock_now = 0\<rparr>"

text \<open>A final envelope that also holds content and a tool call.\<close>

definition final_example :: "nat json" where
  "final_example = JObj [(''final'', JBool True), (''output'', JStr ''bye''), (''content'', JStr ''x''),
     (''tool_calls'', JArr [JObj [(''name'', JStr ''shell''), (''arguments'', JObj [(''cmd'', JStr ''ls'')])]])]"


section \<open>Facts about JavaScript values\<close>

lemma truthy_simps [simp]:
  "\<not> truthy P None" "\<not> truthy P (Some JNull)" "truthy P (Some (JBool b)) = b"
  "truthy P (Some (JStr s)) = (s \<noteq> [])" "truthy P (Some (JArr xs))" "truthy P (Some (JObj kvs))"
  "truthy P (Some (JNum n)) = num_truthy P n"
  by (simp_all add: truthy_def)


section \<open>Properties of patch extraction\<close>

lemma occurs_at_prefix: "occurs_at pat text i \<longleftrightarrow> prefix pat (drop i text)"
  by (auto simp: occurs_at_def str_slice_def prefix_def append_eq_conv_conj)
    (metis append_take_drop_id)

lemma find_at_Some:
  "find_at pat t k = Some i \<longleftrightarrow>
     (\<exists>n\<le>length t. i = k + n \<and> prefix pat (drop n t) \<and> (\<forall>j<n. \<not> prefix pat (drop j t)))"
proof (induction t arbitrary: k)
  case Nil
  then show ?case by auto
next
  case (Cons c cs)
  show ?case
  proof (cases "prefix pat (c # cs)")
    case True
    then show ?thesis
      by (auto intro!: exI[of _ 0]) (metis drop0 not_gr_zero)
  next
    case False
    have "find_at pat (c # cs) k = Some i \<longleftrightarrow> find_at pat cs (Suc k) = Some i"
      using False by simp
    also have "\<dots> \<longleftrightarrow> (\<exists>n\<le>length cs. i = Suc k + n \<and> prefix pat (drop n cs) \<and>
        (\<forall>j<n. \<not> prefix pat (drop j cs)))"
      by (rule Cons.IH)
    also have "\<dots> \<longleftrightarrow> (\<exists>n\<le>length (c # cs). i = k + n \<and> prefix pat (drop n (c # cs)) \<and>
        (\<forall>j<n. \<not> prefix pat (drop j (c # cs))))" (is "?L \<longleftrightarrow> ?R")
    proof
      assume ?L
      then obtain n where n: "n \<le> length cs" "i = Suc k + n" "prefix pat (drop n cs)"
        "\<forall>j<n. \<not> prefix pat (drop j cs)" by blast
      have "\<forall>j<Suc n. \<not> prefix pat (drop j (c # cs))"
      proof (intro allI impI)
        fix j assume "j < Suc n"
        then show "\<not> prefix pat (drop j (c # cs))"
          using False n(4) by (cases j) auto
      qed
      with n show ?R by (intro exI[of _ "Suc n"]) auto
    next
      assume ?R
      then obtain n where n: "n \<le> length (c # cs)" "i = k + n" "prefix pat (drop n (c # cs))"
        "\<forall>j<n. \<not> prefix pat (drop j (c # cs))" by blast
      from n(3) False obtain m where m: "n = Suc m" by (cases n) auto
      have "\<forall>j<m. \<not> prefix pat (drop j cs)"
      proof (intro allI impI)
        fix j assume "j < m"
        then have "Suc j < n" using m by simp
        with n(4) show "\<not> prefix pat (drop j cs)" by fastforce
      qed
      with n m show ?L by (intro exI[of _ m]) auto
    qed
    finally show ?thesis .
  qed
qed

lemma indexOf_Some:
  assumes "pat \<noteq> []"
  shows "indexOf t pat k = Some i \<longleftrightarrow> first_occ pat t k i"
proof (cases "k \<le> length t")
  case True
  have "indexOf t pat k = Some i \<longleftrightarrow>
    (\<exists>n\<le>length t - k. i = k + n \<and> prefix pat (drop (k + n) t) \<and>
       (\<forall>j<n. \<not> prefix pat (drop (k + j) t)))"
    using True by (simp add: indexOf_def find_at_Some min_def add.commute)
  also have "\<dots> \<longleftrightarrow> first_occ pat t k i" (is "?L \<longleftrightarrow> ?R")
  proof
    assume ?L
    then obtain n where n: "i = k + n" "prefix pat (drop (k + n) t)"
      "\<forall>j<n. \<not> prefix pat (drop (k + j) t)" by blast
    have "\<not> occurs_at pat t j" if "k \<le> j" "j < i" for j
      using n(3) [rule_format, of "j - k"] that n(1) by (simp add: occurs_at_prefix)
    with n show ?R by (auto simp: first_occ_def occurs_at_prefix)
  next
    assume r: ?R
    then have ki: "k \<le> i" and p: "prefix pat (drop i t)"
      and f: "\<forall>j. k \<le> j \<and> j < i \<longrightarrow> \<not> prefix pat (drop j t)"
      by (auto simp: first_occ_def occurs_at_prefix)
    from p assms have "i < length t"
      by (cases "i < length t") auto
    with ki p f show ?L
      by (intro exI[of _ "i - k"]) auto
  qed
  finally show ?thesis .
next
  case False
  then have "indexOf t pat k = None" using assms by (simp add: indexOf_def)
  moreover have "\<not> first_occ pat t k i"
    using False assms by (auto simp: first_occ_def occurs_at_prefix)
  ultimately show ?thesis by simp
qed

lemma indexOf_None:
  assumes "pat \<noteq> []"
  shows "indexOf t pat k = None \<longleftrightarrow> (\<forall>i\<ge>k. \<not> occurs_at pat t i)"
proof
  assume n: "indexOf t pat k = None"
  show "\<forall>i\<ge>k. \<not> occurs_at pat t i"
  proof (intro allI impI notI)
    fix i assume i: "k \<le> i" "occurs_at pat t i"
    define m where "m = (LEAST j. k \<le> j \<and> occurs_at pat t j)"
    have "k \<le> m \<and> occurs_at pat t m"
      unfolding m_def by (rule LeastI [of _ i]) (use i in simp)
    moreover have "\<not> (k \<le> j \<and> occurs_at pat t j)" if "j < m" for j
      using that unfolding m_def by (rule not_less_Least)
    ultimately have "first_occ pat t k m" by (auto simp: first_occ_def)
    with indexOf_Some [OF assms, of t k m] n show False by simp
  qed
next
  assume a: "\<forall>i\<ge>k. \<not> occurs_at pat t i"
  show "indexOf t pat k = None"
  proof (cases "indexOf t pat k")
    case None then show ?thesis .
  next
    case (Some i)
    with indexOf_Some [OF assms, of t k i] a show ?thesis
      by (auto simp: first_occ_def)
  qed
qed


lemma first_occ_unique: "first_occ p t k i \<Longrightarrow> first_occ p t k j \<Longrightarrow> i = j"
  unfolding first_occ_def by (meson linorder_neqE_nat)

lemma first_occD: "first_occ p t k i \<Longrightarrow> k \<le> i \<and> occurs_at p t i"
  by (simp add: first_occ_def)

lemma patch_spans_unique:
  "patch_spans t k sp \<Longrightarrow> patch_spans t k sp' \<Longrightarrow> sp = sp'"
proof (induction arbitrary: sp' rule: patch_spans.induct)
  case (no_begin k)
  from no_begin.prems show ?case
  proof (cases rule: patch_spans.cases)
    case (span s' e' sp2)
    from first_occD [OF span(2)] no_begin.hyps show ?thesis by blast
  qed simp_all
next
  case (unterminated k s)
  from unterminated.prems show ?case
  proof (cases rule: patch_spans.cases)
    case (span s' e' sp2)
    from span(2) unterminated.hyps(1) have "s' = s" by (rule first_occ_unique)
    with first_occD [OF span(3)] unterminated.hyps(2) show ?thesis by blast
  qed simp_all
next
  case (span k s e sp)
  from span.prems show ?case
  proof (cases rule: patch_spans.cases)
    case no_begin
    with first_occD [OF span.hyps(1)] show ?thesis by blast
  next
    case (unterminated s')
    from unterminated(2) span.hyps(1) have "s' = s" by (rule first_occ_unique)
    with first_occD [OF span.hyps(2)] unterminated(3) show ?thesis by blast
  next
    case inner: (span s' e' sp2)
    from inner(2) span.hyps(1) have s: "s' = s"
      by (rule first_occ_unique)
    from inner(3) s have "first_occ patch_end t s e'" by simp
    from this span.hyps(2) have e: "e' = e"
      by (rule first_occ_unique)
    from inner(4) e have "sp = sp2" by (intro span.IH) simp
    with s e inner(1) show ?thesis by simp
  qed
qed

lemma loop_spans:
  "\<exists>sp. patch_spans t idx sp \<and>
     findPatchBlocks_loop t idx blocks = blocks @ map (\<lambda>(s, e). str_slice t s e) sp"
proof (induction t idx blocks rule: findPatchBlocks_loop.induct)
  case (1 t idx blocks)
  have bne: "patch_begin \<noteq> []" and ene: "patch_end \<noteq> []"
    by (simp_all add: patch_begin_def patch_end_def)
  show ?case
  proof (cases "indexOf t patch_begin idx")
    case None
    then have "patch_spans t idx []"
      by (auto simp: indexOf_None [OF bne] intro: patch_spans.no_begin)
    with None show ?thesis
      by (subst findPatchBlocks_loop.simps) auto
  next
    case b: (Some s)
    then have fb: "first_occ patch_begin t idx s" by (simp add: indexOf_Some [OF bne])
    show ?thesis
    proof (cases "indexOf t patch_end s")
      case None
      then have "patch_spans t idx []"
        using fb by (auto simp: indexOf_None [OF ene] intro: patch_spans.unterminated)
      with b None show ?thesis
        by (subst findPatchBlocks_loop.simps) auto
    next
      case e: (Some e)
      then have fe: "first_occ patch_end t s e" by (simp add: indexOf_Some [OF ene])
      from "1.IH" [OF b e] obtain sp where sp: "patch_spans t (e + length patch_end) sp"
        "findPatchBlocks_loop t (e + length patch_end) (blocks @ [str_slice t s (e + length patch_end)])
           = (blocks @ [str_slice t s (e + length patch_end)]) @ map (\<lambda>(s, e). str_slice t s e) sp"
        by blast
      from fb fe sp(1) have "patch_spans t idx ((s, e + length patch_end) # sp)"
        by (rule patch_spans.span)
      moreover have "findPatchBlocks_loop t idx blocks
          = blocks @ map (\<lambda>(s, e). str_slice t s e) ((s, e + length patch_end) # sp)"
        using b e sp(2) by (subst findPatchBlocks_loop.simps) simp
      ultimately show ?thesis by blast
    qed
  qed
qed

lemma markers_disjoint:
  assumes "occurs_at patch_begin t s" "occurs_at patch_end t e" "s \<le> e"
  shows "s + length patch_begin \<le> e"
proof (rule ccontr)
  assume "\<not> s + length patch_begin \<le> e"
  then have d: "e - s < 15" by (simp add: patch_begin_def)
  from assms(1) obtain r where r: "drop s t = patch_begin @ r"
    by (auto simp: occurs_at_prefix prefix_def)
  have "drop e t = drop (e - s) (drop s t)" using assms(3) by simp
  with assms(2) r have p: "prefix patch_end (drop (e - s) (patch_begin @ r))"
    by (simp add: occurs_at_prefix)
  have "\<forall>d<15. \<not> prefix patch_end (drop d (patch_begin @ r))"
    by (simp add: patch_begin_def patch_end_def numeral_eq_Suc less_Suc_eq)
  with d p show False by blast
qed


lemma occurs_at_bound: "occurs_at p t i \<Longrightarrow> p \<noteq> [] \<Longrightarrow> i + length p \<le> length t"
  by (cases "i + length p \<le> length t") (auto simp: occurs_at_def str_slice_def dest!: arg_cong [where f = length])

lemma slice_split: "s \<le> m \<Longrightarrow> m \<le> e \<Longrightarrow> str_slice t s e = str_slice t s m @ str_slice t m e"
proof -
  assume a: "s \<le> m" "m \<le> e"
  then have "e - s = (m - s) + (e - m)" by simp
  then have "take (e - s) (drop s t) = take (m - s) (drop s t) @ take (e - m) (drop (m - s) (drop s t))"
    by (simp only: take_add)
  with a show ?thesis by (simp add: str_slice_def)
qed

lemma span_markers:
  assumes b: "occurs_at patch_begin t s" and e: "occurs_at patch_end t e" and le: "s \<le> e"
  shows "prefix patch_begin (str_slice t s (e + length patch_end))"
    and "suffix patch_end (str_slice t s (e + length patch_end))"
proof -
  from markers_disjoint [OF b e le] have d: "s + length patch_begin \<le> e" .
  have "str_slice t s (e + length patch_end) =
      str_slice t s (s + length patch_begin) @ str_slice t (s + length patch_begin) (e + length patch_end)"
    using d by (intro slice_split) simp_all
  with b show "prefix patch_begin (str_slice t s (e + length patch_end))"
    by (simp add: occurs_at_def)
  have "str_slice t s (e + length patch_end) = str_slice t s e @ str_slice t e (e + length patch_end)"
    using le by (intro slice_split) simp_all
  with e show "suffix patch_end (str_slice t s (e + length patch_end))"
    by (simp add: occurs_at_def suffix_def)
qed

lemma patch_spans_shape:
  "patch_spans t k sp \<Longrightarrow>
     sorted_wrt (\<lambda>a b. snd a \<le> fst b) sp \<and> list_all (\<lambda>a. k \<le> fst a \<and> well_formed_span t a) sp"
proof (induction rule: patch_spans.induct)
  case (span k s e sp)
  have ene: "patch_end \<noteq> []" by (simp add: patch_end_def)
  from first_occD [OF span.hyps(1)] have ks: "k \<le> s" and b: "occurs_at patch_begin t s"
    by simp_all
  from first_occD [OF span.hyps(2)] have se: "s \<le> e" and e: "occurs_at patch_end t e"
    by simp_all
  from span.IH have srt: "sorted_wrt (\<lambda>a b. snd a \<le> fst b) sp"
    and rest: "list_all (\<lambda>a. e + length patch_end \<le> fst a \<and> well_formed_span t a) sp"
    by simp_all
  have wf: "well_formed_span t (s, e + length patch_end)"
    using markers_disjoint [OF b e se] occurs_at_bound [OF e ene] span_markers [OF b e se]
    by (simp add: well_formed_span_def)
  have "list_all (\<lambda>a. k \<le> fst a \<and> well_formed_span t a) sp"
    using rest ks se by (auto simp: list_all_iff)
  moreover have "\<forall>a\<in>set sp. e + length patch_end \<le> fst a"
    using rest by (auto simp: list_all_iff)
  ultimately show ?case using srt wf ks by simp
qed simp_all

lemma findPatchBlocks_example:
  "findPatchBlocks ''a*** Begin Patch+x*** End Patch b *** Begin Patch c''
     = [''*** Begin Patch+x*** End Patch'']"
  by code_simp


section \<open>Properties of PKCE generation\<close>

lemma bits_value_append:
  "bits_value (xs @ ys) = bits_value xs * 2 ^ length ys + bits_value ys"
proof -
  have "foldl (\<lambda>n b. 2 * n + (if b then 1 else 0)) a ys
      = a * 2 ^ length ys + foldl (\<lambda>n b. 2 * n + (if b then 1 else 0)) 0 ys" for a :: nat
  proof (induction ys arbitrary: a rule: rev_induct)
    case Nil
    then show ?case by simp
  next
    case (snoc y ys)
    have "foldl (\<lambda>n b. 2 * n + (if b then 1 else 0)) a (ys @ [y])
        = 2 * foldl (\<lambda>n b. 2 * n + (if b then 1 else 0)) a ys + (if y then 1 else 0)"
      by simp
    also have "\<dots> = 2 * (a * 2 ^ length ys + foldl (\<lambda>n b. 2 * n + (if b then 1 else 0)) 0 ys)
        + (if y then 1 else 0)"
      by (simp only: snoc.IH [of a])
    finally show ?case by simp
  qed
  from this [of "foldl (\<lambda>n b. 2 * n + (if b then 1 else 0)) 0 xs"]
  show ?thesis by (simp only: bits_value_def foldl_append)
qed

lemma bits_value_window:
  "bits_value (map (bit (x::nat)) (rev [k..<k + n])) = x div 2 ^ k mod 2 ^ n"
proof (induction n arbitrary: k)
  case 0
  then show ?case by (simp add: bits_value_def)
next
  case (Suc n)
  have ih: "bits_value (map (bit x) (rev [Suc k..<Suc k + n])) = x div 2 ^ Suc k mod 2 ^ n"
    by (rule Suc.IH)
  have b: "bits_value [bit x k] = (x div 2 ^ k) mod 2"
    by (simp add: bits_value_def bit_iff_odd odd_iff_mod_2_eq_one)
  have "[k..<k + Suc n] = k # [Suc k..<Suc k + n]"
    by (simp add: upt_conv_Cons)
  then have "rev [k..<k + Suc n] = rev [Suc k..<Suc k + n] @ [k]"
    by simp
  then have "bits_value (map (bit x) (rev [k..<k + Suc n]))
      = bits_value (map (bit x) (rev [Suc k..<Suc k + n]) @ [bit x k])"
    by simp
  also have "\<dots> = bits_value (map (bit x) (rev [Suc k..<Suc k + n])) * 2 + bits_value [bit x k]"
    by (simp only: bits_value_append) simp
  also have "\<dots> = (x div 2 ^ Suc k mod 2 ^ n) * 2 + (x div 2 ^ k) mod 2"
    by (simp only: ih b)
  also have "\<dots> = x div 2 ^ k mod 2 ^ Suc n"
  proof -
    have "x div 2 ^ Suc k = (x div 2 ^ k) div 2"
      using div_mult2_eq [of x "2 ^ k" 2] by (simp add: mult.commute)
    moreover have "(y div 2 mod 2 ^ n) * 2 + y mod 2 = y mod 2 ^ Suc n" for y :: nat
      using mod_mult2_eq [of y 2 "2 ^ n"] by simp
    ultimately show ?thesis by (simp only:)
  qed
  finally show ?case .
qed

lemma bit_byte: "bit (a::byte) i = bit (unat a) i"
  by (simp add: bit_unsigned_iff)

lemma unat_byte_less: "unat (a::byte) < 256"
  using unsigned_less [of a, where ?'a = nat] by simp

lemma sextet_hi6: "bits_value [bit a 7, bit a 6, bit a 5, bit a 4, bit a 3, bit a 2] = unat a div 4"
  for a :: byte
proof -
  have "rev [2..<2 + 6] = [7, 6, 5, 4, 3, 2::nat]" by code_simp
  with bits_value_window [of "unat a" 2 6] have
    "bits_value [bit a 7, bit a 6, bit a 5, bit a 4, bit a 3, bit a 2] = unat a div 4 mod 64"
    by (simp add: bit_byte)
  then show ?thesis using unat_byte_less [of a] by simp
qed

lemma sextet_lo2: "bits_value [bit a 1, bit a 0] = unat a mod 4" for a :: byte
proof -
  have "rev [0..<0 + 2] = [1, 0::nat]" by code_simp
  with bits_value_window [of "unat a" 0 2] show ?thesis by (simp add: bit_byte)
qed

lemma sextet_hi4: "bits_value [bit a 7, bit a 6, bit a 5, bit a 4] = unat a div 16" for a :: byte
proof -
  have "rev [4..<4 + 4] = [7, 6, 5, 4::nat]" by code_simp
  with bits_value_window [of "unat a" 4 4] have
    "bits_value [bit a 7, bit a 6, bit a 5, bit a 4] = unat a div 16 mod 16"
    by (simp add: bit_byte)
  then show ?thesis using unat_byte_less [of a] by simp
qed

lemma sextet_lo4: "bits_value [bit a 3, bit a 2, bit a 1, bit a 0] = unat a mod 16" for a :: byte
proof -
  have "rev [0..<0 + 4] = [3, 2, 1, 0::nat]" by code_simp
  with bits_value_window [of "unat a" 0 4] show ?thesis by (simp add: bit_byte)
qed

lemma sextet_hi2: "bits_value [bit a 7, bit a 6] = unat a div 64" for a :: byte
proof -
  have "rev [6..<6 + 2] = [7, 6::nat]" by code_simp
  with bits_value_window [of "unat a" 6 2] have
    "bits_value [bit a 7, bit a 6] = unat a div 64 mod 4"
    by (simp add: bit_byte)
  then show ?thesis using unat_byte_less [of a] by simp
qed

lemma sextet_lo6: "bits_value [bit a 5, bit a 4, bit a 3, bit a 2, bit a 1, bit a 0] = unat a mod 64"
  for a :: byte
proof -
  have "rev [0..<0 + 6] = [5, 4, 3, 2, 1, 0::nat]" by code_simp
  with bits_value_window [of "unat a" 0 6] show ?thesis by (simp add: bit_byte)
qed


lemma sextet_mid1:
  "bits_value [bit a 1, bit a 0, bit b 7, bit b 6, bit b 5, bit b 4] = unat a mod 4 * 16 + unat b div 16"
  for a b :: byte
proof -
  have "bits_value ([bit a 1, bit a 0] @ [bit b 7, bit b 6, bit b 5, bit b 4])
      = unat a mod 4 * 2 ^ length [bit b 7, bit b 6, bit b 5, bit b 4] + unat b div 16"
    by (simp only: bits_value_append sextet_lo2 sextet_hi4)
  then show ?thesis by simp
qed

lemma sextet_mid2:
  "bits_value [bit b 3, bit b 2, bit b 1, bit b 0, bit c 7, bit c 6] = unat b mod 16 * 4 + unat c div 64"
  for b c :: byte
proof -
  have "bits_value ([bit b 3, bit b 2, bit b 1, bit b 0] @ [bit c 7, bit c 6])
      = unat b mod 16 * 2 ^ length [bit c 7, bit c 6] + unat c div 64"
    by (simp only: bits_value_append sextet_lo4 sextet_hi2)
  then show ?thesis by simp
qed

lemma bits_value_zeros: "bits_value [False, False, False, False] = 0" "bits_value [False, False] = 0"
  by (simp_all add: bits_value_def)

lemma sextet_pad4:
  "bits_value [bit a 1, bit a 0, False, False, False, False] = unat a mod 4 * 16" for a :: byte
proof -
  have "bits_value ([bit a 1, bit a 0] @ [False, False, False, False])
      = unat a mod 4 * 2 ^ length [False, False, False, False] + 0"
    by (simp only: bits_value_append sextet_lo2 bits_value_zeros)
  then show ?thesis by simp
qed

lemma sextet_pad2:
  "bits_value [bit b 3, bit b 2, bit b 1, bit b 0, False, False] = unat b mod 16 * 4" for b :: byte
proof -
  have "bits_value ([bit b 3, bit b 2, bit b 1, bit b 0] @ [False, False])
      = unat b mod 16 * 2 ^ length [False, False] + 0"
    by (simp only: bits_value_append sextet_lo4 bits_value_zeros)
  then show ?thesis by simp
qed

lemma url_of_std_alphabet: "url_of_std std_alphabet = url_alphabet"
  by (simp add: url_of_std_def replace_char_def std_alphabet_def url_alphabet_def)

lemma url_of_std_char: "i < 64 \<Longrightarrow> url_of_std [std_char i] = [url_alphabet ! i]"
proof -
  assume i: "i < 64"
  have len: "length std_alphabet = 64" by (simp add: std_alphabet_def)
  have "url_of_std s = map (\<lambda>c. if (if c = CHR ''+'' then CHR ''-'' else c) = CHR ''/'' then CHR ''_''
      else (if c = CHR ''+'' then CHR ''-'' else c)) s" for s
    by (simp add: url_of_std_def replace_char_def)
  then obtain r where r: "\<And>s. url_of_std s = map r s" by blast
  have "url_alphabet ! i = map r std_alphabet ! i"
    using url_of_std_alphabet r by simp
  also have "\<dots> = r (std_alphabet ! i)"
    using i len by simp
  finally show ?thesis using i r by (simp add: std_char_def)
qed

lemma url_of_std_append: "url_of_std (xs @ ys) = url_of_std xs @ url_of_std ys"
  by (simp add: url_of_std_def replace_char_def)

lemma url_of_std_Cons: "url_of_std (x # xs) = url_of_std [x] @ url_of_std xs"
  by (simp add: url_of_std_def replace_char_def)

lemma url_of_std_pad: "url_of_std [CHR ''=''] = [CHR ''='']" "url_of_std [] = []"
  by (simp_all add: url_of_std_def replace_char_def)

lemma url_alphabet_no_pad: "i < 64 \<Longrightarrow> url_alphabet ! i \<noteq> CHR ''=''"
proof -
  assume "i < 64"
  then have "url_alphabet ! i \<in> set url_alphabet"
    by (intro nth_mem) (simp add: url_alphabet_def)
  moreover have "CHR ''='' \<notin> set url_alphabet"
    by (simp add: url_alphabet_def)
  ultimately show ?thesis by metis
qed

lemma strip_padding_append:
  "\<forall>c\<in>set xs. c \<noteq> CHR ''='' \<Longrightarrow> strip_padding (xs @ ys) = xs @ strip_padding ys"
proof -
  assume a: "\<forall>c\<in>set xs. c \<noteq> CHR ''=''"
  have keep: "dropWhile (\<lambda>c. c = CHR ''='') (rev xs) = rev xs"
    using a by (cases "rev xs") (auto simp: rev_eq_Cons_iff)
  show ?thesis
  proof (cases "\<forall>c\<in>set ys. c = CHR ''=''")
    case True
    then have "dropWhile (\<lambda>c. c = CHR ''='') (rev ys) = []" by simp
    with True keep show ?thesis
      by (simp add: strip_padding_def dropWhile_append)
  next
    case False
    then show ?thesis
      by (auto simp: strip_padding_def dropWhile_append)
  qed
qed

lemma strip_padding_pad:
  "strip_padding [CHR ''=''] = []" "strip_padding [CHR ''='', CHR ''=''] = []" "strip_padding [] = []"
  by (simp_all add: strip_padding_def)

lemma byte_index_bounds:
  "unat a div 4 < 64" "unat a mod 4 * 16 < 64" "unat a mod 4 * 16 + unat b div 16 < 64"
  "unat b mod 16 * 4 < 64" "unat b mod 16 * 4 + unat c div 64 < 64" "unat c mod 64 < 64"
  for a b c :: byte
proof -
  have m4: "unat a mod 4 \<le> 3" and m16: "unat b mod 16 \<le> 15"
    by (simp_all add: Suc_leI le_simps(2))
  have d4: "unat a div 4 \<le> 63" and d16: "unat b div 16 \<le> 15" and d64: "unat c div 64 \<le> 3"
    using unat_byte_less [of a] unat_byte_less [of b] unat_byte_less [of c] by simp_all
  from d4 show "unat a div 4 < 64" by simp
  from m4 show "unat a mod 4 * 16 < 64" by simp
  from m4 d16 show "unat a mod 4 * 16 + unat b div 16 < 64" by simp
  from m16 show "unat b mod 16 * 4 < 64" by simp
  from m16 d64 show "unat b mod 16 * 4 + unat c div 64 < 64" by simp
  show "unat c mod 64 < 64" by simp
qed

lemma base64url_alt: "base64url b = strip_padding (url_of_std (to_base64 b))"
  by (simp add: base64url_def url_of_std_def)

lemma spec_nil: "base64url_spec [] = []"
  by (simp add: base64url_spec_def)

lemma replicate_False: "replicate 4 False = [False, False, False, False]"
  "replicate 2 False = [False, False]"
  by (simp_all add: numeral_eq_Suc)

lemma spec_one:
  "base64url_spec [a] = [url_alphabet ! (unat a div 4), url_alphabet ! (unat a mod 4 * 16)]"
proof -
  have "groups_of_six (concat (map byte_bits [a]))
      = [[bit a 7, bit a 6, bit a 5, bit a 4, bit a 3, bit a 2],
         [bit a 1, bit a 0, False, False, False, False]]"
    by (simp add: byte_bits_def replicate_False del: One_nat_def)
  then show ?thesis
    by (simp only: base64url_spec_def list.map sextet_hi6 sextet_pad4)
qed

lemma spec_two:
  "base64url_spec [a, b] = [url_alphabet ! (unat a div 4),
     url_alphabet ! (unat a mod 4 * 16 + unat b div 16), url_alphabet ! (unat b mod 16 * 4)]"
proof -
  have "groups_of_six (concat (map byte_bits [a, b]))
      = [[bit a 7, bit a 6, bit a 5, bit a 4, bit a 3, bit a 2],
         [bit a 1, bit a 0, bit b 7, bit b 6, bit b 5, bit b 4],
         [bit b 3, bit b 2, bit b 1, bit b 0, False, False]]"
    by (simp add: byte_bits_def replicate_False del: One_nat_def)
  then show ?thesis
    by (simp only: base64url_spec_def list.map sextet_hi6 sextet_mid1 sextet_pad2)
qed

lemma spec_three:
  "base64url_spec (a # b # c # rest) = [url_alphabet ! (unat a div 4),
     url_alphabet ! (unat a mod 4 * 16 + unat b div 16),
     url_alphabet ! (unat b mod 16 * 4 + unat c div 64), url_alphabet ! (unat c mod 64)]
     @ base64url_spec rest"
proof -
  have "groups_of_six (concat (map byte_bits (a # b # c # rest)))
      = [[bit a 7, bit a 6, bit a 5, bit a 4, bit a 3, bit a 2],
         [bit a 1, bit a 0, bit b 7, bit b 6, bit b 5, bit b 4],
         [bit b 3, bit b 2, bit b 1, bit b 0, bit c 7, bit c 6],
         [bit c 5, bit c 4, bit c 3, bit c 2, bit c 1, bit c 0]]
        @ groups_of_six (concat (map byte_bits rest))"
    by (simp add: byte_bits_def del: One_nat_def)
  then show ?thesis
    by (simp only: base64url_spec_def list.map map_append sextet_hi6 sextet_mid1 sextet_mid2 sextet_lo6)
qed

lemma url_chars_no_pad:
  "i < 64 \<Longrightarrow> j < 64 \<Longrightarrow> k < 64 \<Longrightarrow> l < 64 \<Longrightarrow>
   \<forall>c\<in>set [url_alphabet ! i, url_alphabet ! j, url_alphabet ! k, url_alphabet ! l]. c \<noteq> CHR ''=''"
  by (simp add: url_alphabet_no_pad)

lemma base64url_refines_spec: "base64url bytes = base64url_spec bytes"
proof (induction bytes rule: to_base64.induct)
  case 1
  show ?case by (simp add: base64url_alt spec_nil url_of_std_pad strip_padding_pad)
next
  case (2 a)
  have "url_of_std (to_base64 [a])
      = [url_alphabet ! (unat a div 4), url_alphabet ! (unat a mod 4 * 16)] @ [CHR ''='', CHR ''='']"
    using url_of_std_char [OF byte_index_bounds(1) [of a]] url_of_std_char [OF byte_index_bounds(2) [of a]]
    by (simp add: url_of_std_def replace_char_def)
  moreover have "\<forall>c\<in>set [url_alphabet ! (unat a div 4), url_alphabet ! (unat a mod 4 * 16)]. c \<noteq> CHR ''=''"
    using byte_index_bounds(1,2) [of a] by (simp add: url_alphabet_no_pad)
  ultimately have "base64url [a] = [url_alphabet ! (unat a div 4), url_alphabet ! (unat a mod 4 * 16)]"
    by (simp only: base64url_alt strip_padding_append strip_padding_pad append_Nil2)
  then show ?case by (simp only: spec_one)
next
  case (3 a b)
  have "url_of_std (to_base64 [a, b])
      = [url_alphabet ! (unat a div 4), url_alphabet ! (unat a mod 4 * 16 + unat b div 16),
         url_alphabet ! (unat b mod 16 * 4)] @ [CHR ''='']"
    using url_of_std_char [OF byte_index_bounds(1) [of a]]
      url_of_std_char [OF byte_index_bounds(3) [of a b]]
      url_of_std_char [OF byte_index_bounds(4) [of b]]
    by (simp add: url_of_std_def replace_char_def)
  moreover have "\<forall>c\<in>set [url_alphabet ! (unat a div 4),
      url_alphabet ! (unat a mod 4 * 16 + unat b div 16), url_alphabet ! (unat b mod 16 * 4)]. c \<noteq> CHR ''=''"
    using byte_index_bounds(1) [of a] byte_index_bounds(3) [of a b] byte_index_bounds(4) [of b]
    by (simp add: url_alphabet_no_pad)
  ultimately have "base64url [a, b] = [url_alphabet ! (unat a div 4),
      url_alphabet ! (unat a mod 4 * 16 + unat b div 16), url_alphabet ! (unat b mod 16 * 4)]"
    by (simp only: base64url_alt strip_padding_append strip_padding_pad append_Nil2)
  then show ?case by (simp only: spec_two)
next
  case (4 a b c rest)
  let ?q = "[url_alphabet ! (unat a div 4), url_alphabet ! (unat a mod 4 * 16 + unat b div 16),
      url_alphabet ! (unat b mod 16 * 4 + unat c div 64), url_alphabet ! (unat c mod 64)]"
  have "url_of_std (to_base64 (a # b # c # rest)) = ?q @ url_of_std (to_base64 rest)"
    using url_of_std_char [OF byte_index_bounds(1) [of a]]
      url_of_std_char [OF byte_index_bounds(3) [of a b]]
      url_of_std_char [OF byte_index_bounds(5) [of b c]]
      url_of_std_char [OF byte_index_bounds(6) [of c]]
    by (simp add: url_of_std_def replace_char_def)
  moreover have "\<forall>c\<in>set ?q. c \<noteq> CHR ''=''"
    using byte_index_bounds(1) [of a] byte_index_bounds(3) [of a b]
      byte_index_bounds(5) [of b c] byte_index_bounds(6) [of c]
    by (simp add: url_alphabet_no_pad)
  ultimately have "base64url (a # b # c # rest) = ?q @ base64url rest"
    by (simp only: base64url_alt strip_padding_append)
  then show ?case by (simp only: spec_three "4.IH")
qed


lemma groups_of_six_length: "g \<in> set (groups_of_six bits) \<Longrightarrow> length g = 6"
  by (induction bits arbitrary: g rule: groups_of_six.induct) auto

lemma bits_value_less: "bits_value g < 2 ^ length g"
proof (induction g rule: rev_induct)
  case Nil
  then show ?case by (simp add: bits_value_def)
next
  case (snoc b g)
  have "bits_value (g @ [b]) = 2 * bits_value g + (if b then 1 else 0)"
    by (simp add: bits_value_def)
  with snoc show ?case by simp
qed

lemma base64url_spec_chars: "set (base64url_spec bytes) \<subseteq> set url_alphabet"
proof
  fix c assume "c \<in> set (base64url_spec bytes)"
  then obtain g where g: "g \<in> set (groups_of_six (concat (map byte_bits bytes)))"
    and c: "c = url_alphabet ! bits_value g"
    by (auto simp: base64url_spec_def)
  from groups_of_six_length [OF g] bits_value_less [of g] have "bits_value g < 64" by simp
  then show "c \<in> set url_alphabet"
    unfolding c by (intro nth_mem) (simp add: url_alphabet_def)
qed

lemma groups_of_six_count: "length (groups_of_six bits) = (length bits + 5) div 6"
  by (induction bits rule: groups_of_six.induct) simp_all

lemma base64url_spec_length: "length (base64url_spec bytes) = (8 * length bytes + 5) div 6"
proof -
  have "length (concat (map byte_bits bytes)) = 8 * length bytes"
    by (induction bytes) (simp_all add: byte_bits_def)
  then show ?thesis by (simp add: base64url_spec_def groups_of_six_count)
qed

lemma url_alphabet_ascii: "c \<in> set url_alphabet \<Longrightarrow> of_char c < (128 :: nat)"
  by (auto simp: url_alphabet_def)

lemma genPkce_example:
  "genPkce (\<lambda>n. replicate n 0) (\<lambda>b. [251]) = (replicate 64 CHR ''A'', ''-w'')"
  by code_simp

text \<open>
  Claim C7. For every pair \<open>genPkce\<close> generates, the challenge is the URL-safe base64
  encoding without padding (the specification \<open>base64url_spec\<close>) of the SHA-256 digest
  of the verifier, so recomputing the transform on the verifier gives the challenge again;
  the verifier is that encoding of the 48 (at least 32) random bytes drawn, 64 characters
  long; both consist of characters of the URL-safe alphabet only and hold no padding
  character; and the verifier, being ASCII, is hashed as its own bytes. The digest and the
  random source are parameters; \<^verbatim>\<open>crypto.randomBytes(48)\<close> returns 48 bytes.
\<close>

theorem genPkce_challenge_derived:
  "genPkce randomBytes sha256 = (verifier, challenge) \<and> length (randomBytes 48) = 48 \<longrightarrow>
     challenge = base64url_spec (sha256 (utf8_bytes verifier)) \<and>
     verifier = base64url_spec (randomBytes 48) \<and> 32 \<le> length (randomBytes 48) \<and>
     length verifier = 64 \<and>
     set verifier \<subseteq> set url_alphabet \<and> set challenge \<subseteq> set url_alphabet \<and>
     CHR ''='' \<notin> set verifier \<and> CHR ''='' \<notin> set challenge \<and>
     utf8_bytes verifier = map (\<lambda>c. of_nat (of_char c)) verifier"
proof (intro impI, elim conjE)
  assume g: "genPkce randomBytes sha256 = (verifier, challenge)"
    and len: "length (randomBytes 48) = 48"
  from g have v: "verifier = base64url_spec (randomBytes 48)"
    and c: "challenge = base64url_spec (sha256 (utf8_bytes verifier))"
    by (auto simp: genPkce_def Let_def base64url_refines_spec)
  have nopad: "CHR ''='' \<notin> set url_alphabet" by (simp add: url_alphabet_def)
  have sv: "set verifier \<subseteq> set url_alphabet" and sc: "set challenge \<subseteq> set url_alphabet"
    unfolding v c by (rule base64url_spec_chars)+
  have "utf8_bytes verifier = map (\<lambda>c. of_nat (of_char c)) verifier"
    unfolding utf8_bytes_def using sv
    by (induction verifier) (auto dest: url_alphabet_ascii)
  moreover have "length verifier = 64"
    unfolding v by (simp add: base64url_spec_length len)
  ultimately show "challenge = base64url_spec (sha256 (utf8_bytes verifier)) \<and>
     verifier = base64url_spec (randomBytes 48) \<and> 32 \<le> length (randomBytes 48) \<and>
     length verifier = 64 \<and>
     set verifier \<subseteq> set url_alphabet \<and> set challenge \<subseteq> set url_alphabet \<and>
     CHR ''='' \<notin> set verifier \<and> CHR ''='' \<notin> set challenge \<and>
     utf8_bytes verifier = map (\<lambda>c. of_nat (of_char c)) verifier"
    using v c len sv sc nopad by auto
qed

theorem genPkce_challenge_derived_witness:
  "genPkce (\<lambda>n. replicate n 0) (\<lambda>b. [251]) = (replicate 64 CHR ''A'', ''-w'') \<and>
   length (replicate 48 (0::byte)) = 48 \<and>
   ''-w'' = base64url_spec [251] \<and>
   length (replicate 64 CHR ''A'') = 64 \<and>
   CHR ''='' \<notin> set ''-w''"
proof -
  have h: "genPkce (\<lambda>n. replicate n 0) (\<lambda>b. [251]) = (replicate 64 CHR ''A'', ''-w'') \<and>
      length ((\<lambda>n. replicate n (0::byte)) 48) = 48"
    using genPkce_example by simp
  from genPkce_challenge_derived [THEN mp, OF h]
  have "''-w'' = base64url_spec [251] \<and> length (replicate 64 CHR ''A'') = 64 \<and>
      CHR ''='' \<notin> set ''-w''"
    by blast
  with h show ?thesis by blast
qed

section \<open>Properties of the login callback listener\<close>

lemma callback_rejects_example:
  "callback_handler example_platform example_env ''Y''
     (Request ''/auth/callback'' (Some ''abc'') (Some ''X''))
     \<lparr>session_file = None, close_scheduled = False\<rparr>
   = (\<lparr>status = 400, location = None, body = Body ''Invalid state or missing code''\<rparr>,
      \<lparr>session_file = None, close_scheduled = False\<rparr>)"
  by (simp add: callback_handler_def)

text \<open>
  Claim C6. A request to the callback path whose \<^verbatim>\<open>code\<close> parameter is absent (or
  empty), or whose \<^verbatim>\<open>state\<close> parameter is not the state of the session, is answered
  with status 400; the world is left as it was: \<^verbatim>\<open>session.json\<close> is not written and
  no shutdown of the server is scheduled, so the listener keeps waiting.
\<close>

theorem callback_rejects_bad_state:
  "code = None \<or> code = Some [] \<or> got \<noteq> Some expected \<longrightarrow>
     status (fst (callback_handler P env expected (Request ''/auth/callback'' code got) w)) = 400 \<and>
     snd (callback_handler P env expected (Request ''/auth/callback'' code got) w) = w \<and>
     session_file (snd (callback_handler P env expected (Request ''/auth/callback'' code got) w))
       = session_file w \<and>
     close_scheduled (snd (callback_handler P env expected (Request ''/auth/callback'' code got) w))
       = close_scheduled w"
  by (cases code) (auto simp: callback_handler_def)

theorem callback_rejects_bad_state_witness:
  "Some ''X'' \<noteq> Some ''Y'' \<and>
   status (fst (callback_handler example_platform example_env ''Y''
     (Request ''/auth/callback'' (Some ''abc'') (Some ''X''))
     \<lparr>session_file = None, close_scheduled = False\<rparr>)) = 400 \<and>
   snd (callback_handler example_platform example_env ''Y''
     (Request ''/auth/callback'' (Some ''abc'') (Some ''X''))
     \<lparr>session_file = None, close_scheduled = False\<rparr>)
     = \<lparr>session_file = None, close_scheduled = False\<rparr>"
proof -
  have h: "Some ''abc'' = None \<or> Some ''abc'' = Some [] \<or> Some ''X'' \<noteq> Some ''Y''"
    by simp
  from callback_rejects_bad_state [where P = example_platform and env = example_env
      and w = "\<lparr>session_file = None, close_scheduled = False\<rparr>", THEN mp, OF h]
  show ?thesis by simp
qed

section \<open>Properties of token-claims extraction\<close>

lemma split_example: "split_on CHR ''.'' ''h.eyJhIjoxfQ'' = [''h'', ''eyJhIjoxfQ'']"
  by code_simp

lemma payload_example:
  "json_parse example_platform (jwt_payload_text example_platform ''eyJhIjoxfQ'')
     = Some (JObj [(''a'', JNum 1)])"
  by code_simp

text \<open>
  Claim C9, as amended. For every input, both variants of \<open>parseJwtClaims\<close> return and
  never throw. The variant of \<open>test_gpt.js\<close> returns \<^verbatim>\<open>{}\<close> for a value that is not a
  string, for a token with fewer than two segments, and when the decoded second segment
  does not parse; otherwise it returns what the second segment parses to (or \<^verbatim>\<open>{}\<close>
  when that is falsy), however many segments follow: a token of two, or of more than
  three, segments is not rejected. The variant of \<open>gg.js\<close> returns \<^verbatim>\<open>null\<close> where the
  other returns \<^verbatim>\<open>{}\<close>, and the parsed value as it is.
\<close>

theorem parseJwtClaims_total:
  "(\<exists>v. parseJwtClaims P x = Returns v) \<and> (\<exists>v. gg_parseJwtClaims P x = Returns v) \<and>
   (as_string x = None \<longrightarrow>
      parseJwtClaims P x = Returns (JObj []) \<and> gg_parseJwtClaims P x = Returns JNull) \<and>
   (length (split_on CHR ''.'' s) < 2 \<longrightarrow>
      parseJwtClaims P (Some (JStr s)) = Returns (JObj []) \<and>
      gg_parseJwtClaims P (Some (JStr s)) = Returns JNull) \<and>
   (split_on CHR ''.'' s = h # p # rest \<and> json_parse P (jwt_payload_text P p) = None \<longrightarrow>
      parseJwtClaims P (Some (JStr s)) = Returns (JObj []) \<and>
      gg_parseJwtClaims P (Some (JStr s)) = Returns JNull) \<and>
   (split_on CHR ''.'' s = h # p # rest \<and> json_parse P (jwt_payload_text P p) = Some v \<longrightarrow>
      parseJwtClaims P (Some (JStr s)) = Returns (if truthy P (Some v) then v else JObj []) \<and>
      gg_parseJwtClaims P (Some (JStr s)) = Returns v)"
proof (intro conjI impI)
  show "\<exists>v. parseJwtClaims P x = Returns v"
    by (simp add: parseJwtClaims_def split: outcome.splits)
  show "\<exists>v. gg_parseJwtClaims P x = Returns v"
    by (simp add: gg_parseJwtClaims_def split: outcome.splits)
next
  assume "as_string x = None"
  then show "parseJwtClaims P x = Returns (JObj [])" "gg_parseJwtClaims P x = Returns JNull"
    by (auto simp: parseJwtClaims_def parseJwtClaims_try_def gg_parseJwtClaims_def
        gg_parseJwtClaims_try_def as_string_def split: option.splits json.splits)
next
  assume "length (split_on CHR ''.'' s) < 2"
  then show "parseJwtClaims P (Some (JStr s)) = Returns (JObj [])"
    "gg_parseJwtClaims P (Some (JStr s)) = Returns JNull"
    by (auto simp: parseJwtClaims_def parseJwtClaims_try_def gg_parseJwtClaims_def
        gg_parseJwtClaims_try_def split: list.splits)
next
  assume "split_on CHR ''.'' s = h # p # rest \<and> json_parse P (jwt_payload_text P p) = None"
  then show "parseJwtClaims P (Some (JStr s)) = Returns (JObj [])"
    "gg_parseJwtClaims P (Some (JStr s)) = Returns JNull"
    by (simp_all add: parseJwtClaims_def parseJwtClaims_try_def gg_parseJwtClaims_def
        gg_parseJwtClaims_try_def)
next
  assume "split_on CHR ''.'' s = h # p # rest \<and> json_parse P (jwt_payload_text P p) = Some v"
  then show "parseJwtClaims P (Some (JStr s)) = Returns (if truthy P (Some v) then v else JObj [])"
    "gg_parseJwtClaims P (Some (JStr s)) = Returns v"
    by (simp_all add: parseJwtClaims_def parseJwtClaims_try_def gg_parseJwtClaims_def
        gg_parseJwtClaims_try_def)
qed

theorem parseJwtClaims_total_witness:
  "split_on CHR ''.'' ''h.eyJhIjoxfQ'' = [''h'', ''eyJhIjoxfQ''] \<and>
   json_parse example_platform (jwt_payload_text example_platform ''eyJhIjoxfQ'')
     = Some (JObj [(''a'', JNum 1)]) \<and>
   parseJwtClaims example_platform (Some (JStr ''h.eyJhIjoxfQ'')) = Returns (JObj [(''a'', JNum 1)]) \<and>
   gg_parseJwtClaims example_platform (Some (JStr ''h.eyJhIjoxfQ'')) = Returns (JObj [(''a'', JNum 1)])"
proof -
  have t: "truthy example_platform (Some (JObj [(''a'', JNum 1)]))"
    by (simp add: truthy_def)
  from parseJwtClaims_total [of example_platform "Some (JStr ''h.eyJhIjoxfQ'')" "''h.eyJhIjoxfQ''"
      "''h''" "''eyJhIjoxfQ''" "[]" "JObj [(''a'', JNum 1)]"]
  have "split_on CHR ''.'' ''h.eyJhIjoxfQ'' = [''h'', ''eyJhIjoxfQ''] \<and>
      json_parse example_platform (jwt_payload_text example_platform ''eyJhIjoxfQ'')
        = Some (JObj [(''a'', JNum 1)]) \<longrightarrow>
      parseJwtClaims example_platform (Some (JStr ''h.eyJhIjoxfQ''))
        = Returns (if truthy example_platform (Some (JObj [(''a'', JNum 1)]))
                   then JObj [(''a'', JNum 1)] else JObj []) \<and>
      gg_parseJwtClaims example_platform (Some (JStr ''h.eyJhIjoxfQ'')) = Returns (JObj [(''a'', JNum 1)])"
    by blast
  with split_example payload_example t show ?thesis by simp
qed

text \<open>
  Claim C9 as stated fails: a token of two segments is a malformed token, and
  \<open>test_gpt.js\<close> returns the claims of its second segment, not \<^verbatim>\<open>{}\<close>; on a token of
  one segment \<open>gg.js\<close> returns \<^verbatim>\<open>null\<close>, not \<^verbatim>\<open>{}\<close>.
\<close>

theorem parseJwtClaims_not_empty_object:
  "length (split_on CHR ''.'' ''h.eyJhIjoxfQ'') = 2 \<and>
   parseJwtClaims example_platform (Some (JStr ''h.eyJhIjoxfQ'')) = Returns (JObj [(''a'', JNum 1)]) \<and>
   parseJwtClaims example_platform (Some (JStr ''h.eyJhIjoxfQ'')) \<noteq> Returns (JObj []) \<and>
   length (split_on CHR ''.'' ''abc'') = 1 \<and>
   gg_parseJwtClaims example_platform (Some (JStr ''abc'')) = Returns JNull \<and>
   gg_parseJwtClaims example_platform (Some (JStr ''abc'')) \<noteq> Returns (JObj [])"
  by code_simp

section \<open>Properties of the credential records\<close>

lemma readAuthFromHome_usable:
  "readAuthFromHome P f = Returns (Some c) \<Longrightarrow> usable P (Some c)"
  by (auto simp: readAuthFromHome_def usable_def Let_def split: option.splits if_splits)

lemma readSessionJson_token:
  "readSessionJson P f = Returns (Some c) \<Longrightarrow> truthy P (token c)"
  by (auto simp: readSessionJson_def Let_def split: option.splits if_splits)

lemma readAuthFromHome_key_only:
  assumes "json_parse P content = Some (JObj kvs)"
    and "map_of kvs ''OPENAI_API_KEY'' = Some (JStr k)" and "str_trim k \<noteq> []"
    and "map_of kvs ''tokens'' = None"
  shows "readAuthFromHome P (Some content)
    = Returns (Some \<lparr>apiKey = Some (JStr (str_trim k)), token = None, accountId = None\<rparr>)"
  using assms
  by (simp add: readAuthFromHome_def Let_def auth_apiKey_def auth_token_def auth_accountId_def
      as_string_def truthy_def)

lemma readSessionJson_no_token:
  assumes "json_parse P content = Some (JObj kvs)"
    and "map_of kvs ''token'' = None" and "map_of kvs ''tokens'' = None"
    and "map_of kvs ''access_token'' = None"
  shows "readSessionJson P (Some content) = Returns None"
  using assms
  by (simp add: readSessionJson_def Let_def session_token_def string_field_def as_string_def js_or_def)

lemma readAuthFromHome_neither:
  assumes "json_parse P content = Some (JObj kvs)"
    and "map_of kvs ''OPENAI_API_KEY'' = None" and "map_of kvs ''tokens'' = None"
  shows "readAuthFromHome P (Some content) = Returns None"
  using assms
  by (simp add: readAuthFromHome_def Let_def auth_apiKey_def auth_token_def as_string_def)

lemma auth_file_example:
  "readAuthFromHome example_platform
     (Some (''{'' @ [CHR 0x22] @ ''OPENAI_API_KEY'' @ [CHR 0x22] @ '':'' @ [CHR 0x22] @ ''sk-test'' @ [CHR 0x22] @ ''}''))
   = Returns (Some \<lparr>apiKey = Some (JStr ''sk-test''), token = None, accountId = None\<rparr>)"
  by code_simp

text \<open>
  Claim C8, as amended. A session is usable (the guard of \<open>askQuestion\<close>) exactly when
  its API key or its token is truthy; no session is not usable. Every record
  \<open>readAuthFromHome\<close> returns is usable, and an \<^verbatim>\<open>auth.json\<close> that holds only a
  non-blank \<^verbatim>\<open>OPENAI_API_KEY\<close> is returned as such a record; one that holds neither a
  key nor tokens reads as \<^verbatim>\<open>null\<close>. \<open>readSessionJson\<close> returns a record only when it
  finds a token: every record it returns has a truthy token, and a \<^verbatim>\<open>session.json\<close>
  without \<^verbatim>\<open>token\<close>, \<^verbatim>\<open>tokens\<close> and \<^verbatim>\<open>access_token\<close> reads as \<^verbatim>\<open>null\<close>, whether or
  not it holds an API key.
\<close>

theorem credential_usability:
  "(usable P (Some c) \<longleftrightarrow> truthy P (apiKey c) \<or> truthy P (token c)) \<and> \<not> usable P None \<and>
   (readAuthFromHome P f = Returns (Some c) \<longrightarrow> usable P (Some c)) \<and>
   (readSessionJson P f = Returns (Some c) \<longrightarrow> truthy P (token c) \<and> usable P (Some c)) \<and>
   (json_parse P content = Some (JObj kvs) \<and> map_of kvs ''OPENAI_API_KEY'' = Some (JStr k) \<and>
    str_trim k \<noteq> [] \<and> map_of kvs ''tokens'' = None \<longrightarrow>
      readAuthFromHome P (Some content)
        = Returns (Some \<lparr>apiKey = Some (JStr (str_trim k)), token = None, accountId = None\<rparr>)) \<and>
   (json_parse P content = Some (JObj kvs) \<and> map_of kvs ''OPENAI_API_KEY'' = None \<and>
    map_of kvs ''tokens'' = None \<longrightarrow>
      readAuthFromHome P (Some content) = Returns None) \<and>
   (json_parse P content = Some (JObj kvs) \<and> map_of kvs ''token'' = None \<and>
    map_of kvs ''tokens'' = None \<and> map_of kvs ''access_token'' = None \<longrightarrow>
      readSessionJson P (Some content) = Returns None)"
proof (intro conjI impI)
  show "usable P (Some c) \<longleftrightarrow> truthy P (apiKey c) \<or> truthy P (token c)"
    by (simp add: usable_def)
  show "\<not> usable P None"
    by (simp add: usable_def)
next
  assume "readAuthFromHome P f = Returns (Some c)"
  then show "usable P (Some c)" by (rule readAuthFromHome_usable)
next
  assume a: "readSessionJson P f = Returns (Some c)"
  then show "truthy P (token c)" by (rule readSessionJson_token)
  then show "usable P (Some c)" by (simp add: usable_def)
next
  assume "json_parse P content = Some (JObj kvs) \<and> map_of kvs ''OPENAI_API_KEY'' = Some (JStr k) \<and>
    str_trim k \<noteq> [] \<and> map_of kvs ''tokens'' = None"
  then show "readAuthFromHome P (Some content)
        = Returns (Some \<lparr>apiKey = Some (JStr (str_trim k)), token = None, accountId = None\<rparr>)"
    using readAuthFromHome_key_only by blast
next
  assume "json_parse P content = Some (JObj kvs) \<and> map_of kvs ''OPENAI_API_KEY'' = None \<and>
    map_of kvs ''tokens'' = None"
  then show "readAuthFromHome P (Some content) = Returns None"
    using readAuthFromHome_neither by blast
next
  assume "json_parse P content = Some (JObj kvs) \<and> map_of kvs ''token'' = None \<and>
    map_of kvs ''tokens'' = None \<and> map_of kvs ''access_token'' = None"
  then show "readSessionJson P (Some content) = Returns None"
    using readSessionJson_no_token by blast
qed

theorem credential_usability_witness:
  "readAuthFromHome example_platform
     (Some (''{'' @ [CHR 0x22] @ ''OPENAI_API_KEY'' @ [CHR 0x22] @ '':'' @ [CHR 0x22] @ ''sk-test'' @ [CHR 0x22] @ ''}''))
   = Returns (Some \<lparr>apiKey = Some (JStr ''sk-test''), token = None, accountId = None\<rparr>) \<and>
   usable example_platform (Some \<lparr>apiKey = Some (JStr ''sk-test''), token = None, accountId = None\<rparr>)"
proof -
  from credential_usability [where P = example_platform
      and f = "Some (''{'' @ [CHR 0x22] @ ''OPENAI_API_KEY'' @ [CHR 0x22] @ '':'' @ [CHR 0x22] @ ''sk-test'' @ [CHR 0x22] @ ''}'')"
      and c = "\<lparr>apiKey = Some (JStr ''sk-test''), token = None, accountId = None\<rparr>"]
  have "readAuthFromHome example_platform
     (Some (''{'' @ [CHR 0x22] @ ''OPENAI_API_KEY'' @ [CHR 0x22] @ '':'' @ [CHR 0x22] @ ''sk-test'' @ [CHR 0x22] @ ''}''))
      = Returns (Some \<lparr>apiKey = Some (JStr ''sk-test''), token = None, accountId = None\<rparr>) \<longrightarrow>
    usable example_platform (Some \<lparr>apiKey = Some (JStr ''sk-test''), token = None, accountId = None\<rparr>)"
    by blast
  with auth_file_example show ?thesis by blast
qed

text \<open>
  Claim C8 as stated fails for \<open>readSessionJson\<close>: a \<^verbatim>\<open>session.json\<close> that holds only
  an API key is read as \<^verbatim>\<open>null\<close>, although a record with that key alone is usable.
\<close>

theorem session_file_key_only_unreadable:
  "readSessionJson example_platform
     (Some (''{'' @ [CHR 0x22] @ ''apiKey'' @ [CHR 0x22] @ '':'' @ [CHR 0x22] @ ''sk-test'' @ [CHR 0x22] @ ''}''))
   = Returns None \<and>
   json_parse example_platform
     (''{'' @ [CHR 0x22] @ ''apiKey'' @ [CHR 0x22] @ '':'' @ [CHR 0x22] @ ''sk-test'' @ [CHR 0x22] @ ''}'')
   = Some (JObj [(''apiKey'', JStr ''sk-test'')]) \<and>
   usable example_platform (Some \<lparr>apiKey = Some (JStr ''sk-test''), token = None, accountId = None\<rparr>)"
  by code_simp


section \<open>Properties of the event translator\<close>

lemma string_and_self_or:
  "js_or P (string_and_self v) w = (case text_candidate v of Some s \<Rightarrow> Some (JStr s) | None \<Rightarrow> w)"
  by (auto simp: js_or_def string_and_self_def text_candidate_def
      split: option.splits json.splits list.splits)

lemma finalMsg_spec: "finalMsg P json = Some (JStr (final_text_spec json))"
proof -
  let ?c = "get json ''content''"
  have last: "js_or P (case as_array ?c of None \<Rightarrow> Some (JBool False)
        | Some cs \<Rightarrow> (case find is_text_item cs of None \<Rightarrow> None | Some c \<Rightarrow> get (Some c) ''text''))
      (Some (JStr ''Done.''))
    = (case ?c of
         Some (JArr cs) \<Rightarrow> (case content_candidate ?c of Some s \<Rightarrow> Some (JStr s) | None \<Rightarrow> Some (JStr ''Done.''))
       | _ \<Rightarrow> Some (JStr ''Done.''))"
    by (auto simp: js_or_def as_array_def content_candidate_def text_candidate_def is_text_item_def
        as_string_def split: option.splits json.splits list.splits dest!: find_Some_iff [THEN iffD1])
  have third: "(case text_candidate ?c of Some s \<Rightarrow> Some (JStr s)
      | None \<Rightarrow> (case ?c of
           Some (JArr cs) \<Rightarrow> (case content_candidate ?c of Some s \<Rightarrow> Some (JStr s) | None \<Rightarrow> Some (JStr ''Done.''))
         | _ \<Rightarrow> Some (JStr ''Done.'')))
    = (case content_candidate ?c of Some s \<Rightarrow> Some (JStr s) | None \<Rightarrow> Some (JStr ''Done.''))"
    by (auto simp: content_candidate_def text_candidate_def split: option.splits json.splits list.splits)
  show ?thesis
    unfolding finalMsg_def string_and_self_or last third
    by (auto simp: final_text_spec_def split: option.splits)
qed

lemma text_candidate_nonempty: "text_candidate v = Some s \<Longrightarrow> s \<noteq> []"
  by (auto simp: text_candidate_def split: option.splits json.splits list.splits)

lemma content_candidate_nonempty: "content_candidate v = Some s \<Longrightarrow> s \<noteq> []"
  by (auto simp: content_candidate_def split: option.splits json.splits
      dest: text_candidate_nonempty)

lemma final_text_spec_nonempty: "final_text_spec json \<noteq> []"
proof (cases "text_candidate (get json ''assistant_message'')")
  case (Some s)
  then show ?thesis
    by (simp add: final_text_spec_def text_candidate_nonempty)
next
  case a: None
  show ?thesis
  proof (cases "text_candidate (get json ''output'')")
    case (Some s)
    with a show ?thesis
      by (simp add: final_text_spec_def text_candidate_nonempty)
  next
    case b: None
    show ?thesis
    proof (cases "content_candidate (get json ''content'')")
      case (Some s)
      with a b show ?thesis
        by (simp add: final_text_spec_def content_candidate_nonempty)
    next
      case None
      with a b show ?thesis
        by (simp add: final_text_spec_def)
    qed
  qed
qed


lemma sendCodexResponse_final:
  assumes "isFinal json"
  shows "snd (sendCodexResponse P json opts st) = None"
    and "written (fst (sendCodexResponse P json opts st))
      = written st @ Created (Some (response_id P opts st)) # summary_events json
          @ [Message (JStr (final_text_spec json)),
             Completed (Some (response_id P opts st)) (Some zero_usage)]"
    and "ended (fst (sendCodexResponse P json opts st))"
  using assms final_text_spec_nonempty [of json]
  by (auto simp: sendCodexResponse_def Let_def split_def randId_def sse_def res_end_def
      pushAssistantText_def finalMsg_spec summary_events_def response_id_def
      split: option.splits list.splits)

lemma summary_events_kinds:
  "filter is_message (summary_events json) = []" "filter is_tool_call (summary_events json) = []"
  "filter is_created (summary_events json) = []" "filter is_completed (summary_events json) = []"
  by (auto simp: summary_events_def is_message_def is_tool_call_def is_created_def is_completed_def
      split: option.splits)

text \<open>
  Claim C2. For every envelope whose final flag is set (\<^verbatim>\<open>final\<close>, \<^verbatim>\<open>done\<close> or
  \<^verbatim>\<open>finish\<close> is \<^verbatim>\<open>true\<close>), \<open>sendCodexResponse\<close> returns without an exception and
  writes the created event, the reasoning summary if there is one, exactly one assistant
  message and the completed event: among the events it writes there is one message and no
  tool call, however many tool calls the envelope holds. The text of the message is the
  one the specification \<open>final_text_spec\<close> chooses: the first non-empty string among the
  assistant-message field, the output field and the content field (a string, or the first
  text-typed element of an array), else \<^verbatim>\<open>Done.\<close>.
\<close>

theorem final_envelope_single_message:
  "isFinal json \<longrightarrow>
     snd (sendCodexResponse P json opts st) = None \<and>
     written (fst (sendCodexResponse P json opts st))
       = written st @ Created (Some (response_id P opts st)) # summary_events json
           @ [Message (JStr (final_text_spec json)),
              Completed (Some (response_id P opts st)) (Some zero_usage)] \<and>
     filter is_message (drop (length (written st)) (written (fst (sendCodexResponse P json opts st))))
       = [Message (JStr (final_text_spec json))] \<and>
     filter is_tool_call (drop (length (written st)) (written (fst (sendCodexResponse P json opts st))))
       = []"
proof
  assume f: "isFinal json"
  note w = sendCodexResponse_final(2) [OF f, of P opts st]
  have "filter is_message (drop (length (written st)) (written (fst (sendCodexResponse P json opts st))))
      = [Message (JStr (final_text_spec json))]"
    unfolding w by (simp add: summary_events_kinds) (simp add: is_message_def)
  moreover have "filter is_tool_call (drop (length (written st)) (written (fst (sendCodexResponse P json opts st))))
      = []"
    unfolding w by (simp add: summary_events_kinds) (simp add: is_tool_call_def)
  ultimately show "snd (sendCodexResponse P json opts st) = None \<and>
     written (fst (sendCodexResponse P json opts st))
       = written st @ Created (Some (response_id P opts st)) # summary_events json
           @ [Message (JStr (final_text_spec json)),
              Completed (Some (response_id P opts st)) (Some zero_usage)] \<and>
     filter is_message (drop (length (written st)) (written (fst (sendCodexResponse P json opts st))))
       = [Message (JStr (final_text_spec json))] \<and>
     filter is_tool_call (drop (length (written st)) (written (fst (sendCodexResponse P json opts st))))
       = []"
    using sendCodexResponse_final(1) [OF f, of P opts st] w by simp
qed

lemma final_example_facts:
  "isFinal (Some final_example)" "final_text_spec (Some final_example) = ''bye''"
  "summary_events (Some final_example) = []"
  by (simp_all add: final_example_def isFinal_def final_text_spec_def text_candidate_def
      summary_events_def as_string_def)

theorem final_envelope_single_message_witness:
  "isFinal (Some final_example) \<and>
   written (fst (sendCodexResponse example_platform (Some final_example) None new_stream))
     = [Created (Some ''resp_0''), Message (JStr ''bye''), Completed (Some ''resp_0'') (Some zero_usage)]"
proof -
  have "response_id example_platform None new_stream = ''resp_0''"
    by code_simp
  moreover have "written (new_stream :: nat stream) = []"
    by (simp add: new_stream_def)
  ultimately show ?thesis
    using final_envelope_single_message [of "Some final_example" example_platform None new_stream]
      final_example_facts
    by simp
qed


lemma js_join_ls: "js_join P '' '' [JStr ''ls'', JStr ''-la''] = Returns ''ls -la''"
  by simp

lemma shell_command_shapes:
  "shell_command P (Some (JObj [(''command'', JArr [JStr ''ls'', JStr ''-la''])])) = Returns (Some ''ls -la'')"
  "shell_command P (Some (JObj [(''command'', JStr ''ls -la'')])) = Returns (Some ''ls -la'')"
  "shell_command P (Some (JObj [(''cmd'', JStr ''ls -la'')])) = Returns (Some ''ls -la'')"
  "shell_command P (Some (JArr [JStr ''ls'', JStr ''-la''])) = Returns (Some ''ls -la'')"
  by (simp_all add: shell_command_def as_string_def as_array_def)

lemma shell_payload_shapes:
  "shell_payload (Some (JObj [(''command'', JArr [JStr ''ls'', JStr ''-la''])])) c = JObj [(''cmd'', JStr c)]"
  "shell_payload (Some (JObj [(''command'', JStr ''ls -la'')])) c = JObj [(''cmd'', JStr c)]"
  "shell_payload (Some (JObj [(''cmd'', JStr ''ls -la'')])) c = JObj [(''cmd'', JStr c)]"
  "shell_payload (Some (JArr [JStr ''ls'', JStr ''-la''])) c = JObj [(''cmd'', JStr c)]"
  by (simp_all add: shell_payload_def)

lemma emitToolCall_shell:
  assumes "name \<in> set shell_names" and "shell_command P (Some args) = Returns (Some (c # cs))"
    and "as_string (Some args) = None"
  shows "emitToolCall P (Some (JStr name)) (Some args) st
    = Returns (emitFunctionCall P ''exec_command'' (Some (shell_payload (Some args) (c # cs))) st)"
proof -
  from assms(1) have "name \<noteq> []" by (auto simp: shell_names_def)
  with assms show ?thesis
    by (cases args) (simp_all add: emitToolCall_def as_string_def)
qed

lemma emitFunctionCall_object:
  "emitFunctionCall P n (Some (JObj kvs)) st
    = sse (FunctionCall n (json_stringify P (JObj kvs)) (''call_fn_'' @ fresh_suffix P (draws st)))
        (st\<lparr>draws := Suc (draws st)\<rparr>)"
  by (simp add: emitFunctionCall_def randId_def)

text \<open>
  Claim C4. For a call named \<^verbatim>\<open>shell\<close>, \<^verbatim>\<open>exec\<close>, \<^verbatim>\<open>bash\<close>, \<^verbatim>\<open>sh\<close> or
  \<^verbatim>\<open>run\<close>, each of the argument shapes \<^verbatim>\<open>{command:["ls","-la"]}\<close>,
  \<^verbatim>\<open>{command:"ls -la"}\<close>, \<^verbatim>\<open>{cmd:"ls -la"}\<close> and \<^verbatim>\<open>["ls","-la"]\<close> gives the
  command string \<^verbatim>\<open>ls -la\<close>, and \<open>emitToolCall\<close> writes exactly one function-call
  event, named \<^verbatim>\<open>exec_command\<close>, whose arguments are the serialised object
  \<^verbatim>\<open>{cmd: "ls -la"}\<close>.
\<close>

theorem shell_arguments_normalize:
  "name \<in> set shell_names \<and>
   args \<in> set [JObj [(''command'', JArr [JStr ''ls'', JStr ''-la''])],
                JObj [(''command'', JStr ''ls -la'')],
                JObj [(''cmd'', JStr ''ls -la'')],
                JArr [JStr ''ls'', JStr ''-la'']] \<longrightarrow>
     shell_command P (Some args) = Returns (Some ''ls -la'') \<and>
     emitToolCall P (Some (JStr name)) (Some args) st
       = Returns (sse (FunctionCall ''exec_command''
                         (json_stringify P (JObj [(''cmd'', JStr ''ls -la'')]))
                         (''call_fn_'' @ fresh_suffix P (draws st)))
                    (st\<lparr>draws := Suc (draws st)\<rparr>))"
proof (intro impI, elim conjE)
  assume n: "name \<in> set shell_names"
    and a: "args \<in> set [JObj [(''command'', JArr [JStr ''ls'', JStr ''-la''])],
                JObj [(''command'', JStr ''ls -la'')],
                JObj [(''cmd'', JStr ''ls -la'')],
                JArr [JStr ''ls'', JStr ''-la'']]"
  from a have c: "shell_command P (Some args) = Returns (Some ''ls -la'')"
    using shell_command_shapes [of P] by auto
  from a have p: "shell_payload (Some args) ''ls -la'' = JObj [(''cmd'', JStr ''ls -la'')]"
    using shell_payload_shapes [of "''ls -la''"] by auto
  from a have s: "as_string (Some args) = None"
    by (auto simp: as_string_def)
  from c have c': "shell_command P (Some args) = Returns (Some (CHR ''l'' # ''s -la''))"
    by simp
  from emitToolCall_shell [OF n c' s, of st] p
  have "emitToolCall P (Some (JStr name)) (Some args) st
      = Returns (emitFunctionCall P ''exec_command'' (Some (JObj [(''cmd'', JStr ''ls -la'')])) st)"
    by simp
  with c show "shell_command P (Some args) = Returns (Some ''ls -la'') \<and>
     emitToolCall P (Some (JStr name)) (Some args) st
       = Returns (sse (FunctionCall ''exec_command''
                         (json_stringify P (JObj [(''cmd'', JStr ''ls -la'')]))
                         (''call_fn_'' @ fresh_suffix P (draws st)))
                    (st\<lparr>draws := Suc (draws st)\<rparr>))"
    by (simp only: emitFunctionCall_object)
qed

lemma stringify_cmd_example:
  "json_stringify example_platform (JObj [(''cmd'', JStr ''ls -la'')])
     = ''{'' @ [CHR 0x22] @ ''cmd'' @ [CHR 0x22] @ '':'' @ [CHR 0x22] @ ''ls -la'' @ [CHR 0x22] @ ''}''"
  by code_simp

lemma fresh_example: "fresh_suffix example_platform 0 = ''0''"
  by code_simp

theorem shell_arguments_normalize_witness:
  "''bash'' \<in> set shell_names \<and>
   written (case emitToolCall example_platform (Some (JStr ''bash''))
                  (Some (JArr [JStr ''ls'', JStr ''-la''])) new_stream of
              Returns st \<Rightarrow> st | Throws e \<Rightarrow> new_stream)
     = [FunctionCall ''exec_command''
          (''{'' @ [CHR 0x22] @ ''cmd'' @ [CHR 0x22] @ '':'' @ [CHR 0x22] @ ''ls -la'' @ [CHR 0x22] @ ''}'')
          ''call_fn_0'']"
proof -
  have h: "''bash'' \<in> set shell_names \<and>
      JArr [JStr ''ls'', JStr ''-la''] \<in> set [JObj [(''command'', JArr [JStr ''ls'', JStr ''-la''])],
                JObj [(''command'', JStr ''ls -la'')],
                JObj [(''cmd'', JStr ''ls -la'')],
                (JArr [JStr ''ls'', JStr ''-la''] :: nat json)]"
    by (simp add: shell_names_def)
  from shell_arguments_normalize [where P = example_platform and st = new_stream, THEN mp, OF h]
  have "emitToolCall example_platform (Some (JStr ''bash'')) (Some (JArr [JStr ''ls'', JStr ''-la''])) new_stream
      = Returns (sse (FunctionCall ''exec_command''
                         (json_stringify example_platform (JObj [(''cmd'', JStr ''ls -la'')]))
                         (''call_fn_'' @ fresh_suffix example_platform (draws (new_stream :: nat stream))))
                    (new_stream\<lparr>draws := Suc (draws (new_stream :: nat stream))\<rparr>))"
    by blast
  then show ?thesis
    using h by (simp add: stringify_cmd_example fresh_example sse_def new_stream_def)
qed


section \<open>The translator only appends item events\<close>

lemma grows_refl [simp]: "grows st st"
  by (simp add: grows_def)

lemma grows_trans: "grows a b \<Longrightarrow> grows b c \<Longrightarrow> grows a c"
  by (auto simp: grows_def)

lemma grows_sse: "is_item ev \<Longrightarrow> grows st (sse ev st)"
  by (simp add: grows_def sse_def)

lemma grows_written_eq: "written b = written c \<Longrightarrow> grows a b \<Longrightarrow> grows a c"
  by (simp add: grows_def)

lemma grows_randId [simp]: "grows st (snd (randId P pfx st))"
  by (simp add: grows_def randId_def)

lemma item_simps [simp]:
  "is_item (Message t)" "is_item (FunctionCall n a i)" "is_item (CustomToolCall n a i)"
  "is_item (LocalShellCall c i)" "is_item (ReasoningDelta s)" "is_item (TextDelta s)"
  "is_item (Failed m)" "is_item ErrorEvent"
  "\<not> is_item (Created r)" "\<not> is_item (Completed r u)"
  by (simp_all add: is_item_def is_created_def is_completed_def)

lemma grows_fold:
  assumes "\<And>x s. grows s (f x s)"
  shows "grows st (fold f xs st)"
proof (induction xs arbitrary: st)
  case Nil
  show ?case by simp
next
  case (Cons x xs)
  have "grows st (f x st)" by (rule assms)
  moreover have "grows (f x st) (fold f xs (f x st))" by (rule Cons.IH)
  ultimately show ?case by (auto intro: grows_trans)
qed

lemma grows_pushAssistantText [simp]: "grows st (pushAssistantText P t st)"
  by (auto simp: pushAssistantText_def grows_sse split: option.splits)

lemma grows_emit_content [simp]: "grows st (emit_content P json st)"
  unfolding emit_content_def
  by (auto split: option.splits json.splits intro!: grows_fold)

lemma grows_emit_output [simp]: "grows st (emit_output P json st)"
  unfolding emit_output_def
  by (auto split: option.splits json.splits intro!: grows_fold)

lemma grows_sse_randId: "is_item ev \<Longrightarrow> grows st (sse ev (snd (randId P pfx st)))"
  by (simp add: grows_def sse_def randId_def)

lemma grows_emitFunctionCall [simp]: "grows st (emitFunctionCall P n obj st)"
  by (simp add: emitFunctionCall_def split_def Let_def grows_sse_randId)

lemma grows_emit_patch_or_generic [simp]: "grows st (emit_patch_or_generic P n args st)"
  by (auto simp: emit_patch_or_generic_def split_def Let_def grows_sse_randId
      split: option.splits list.splits)

lemma grows_emitToolCall: "emitToolCall P nameIn argsIn st = Returns st' \<Longrightarrow> grows st st'"
  by (auto simp: emitToolCall_def Let_def split: outcome.splits option.splits list.splits if_splits)

lemma grows_emit_tool_calls: "grows st (fst (emit_tool_calls P calls st))"
proof (induction calls arbitrary: st)
  case Nil
  show ?case by simp
next
  case (Cons call calls)
  show ?case
  proof (cases "emitToolCall P (call_name P (Some call)) (call_args (Some call)) st")
    case (Throws e)
    then show ?thesis by simp
  next
    case (Returns st1)
    from grows_emitToolCall [OF Returns] Cons.IH [of st1] Returns
    show ?thesis by (auto intro: grows_trans)
  qed
qed

lemma grows_emit_tools: "grows st (fst (emit_tools P json st))"
  by (auto simp: emit_tools_def Let_def grows_emit_tool_calls
      split: outcome.splits dest: grows_emitToolCall)


lemma ended_sse [simp]: "ended (sse ev st) = ended st"
  by (simp add: sse_def)

lemma ended_randId [simp]: "ended (snd (randId P pfx st)) = ended st"
  by (simp add: randId_def)

lemma ended_pushAssistantText [simp]: "ended (pushAssistantText P t st) = ended st"
  by (simp add: pushAssistantText_def split: option.splits)

lemma ended_fold:
  assumes "\<And>x s. ended (f x s) = ended s"
  shows "ended (fold f xs st) = ended st"
  by (induction xs arbitrary: st) (simp_all add: assms)

lemma ended_emit_content [simp]: "ended (emit_content P json st) = ended st"
  unfolding emit_content_def
  by (simp add: ended_fold split: option.splits json.splits)

lemma ended_emit_output [simp]: "ended (emit_output P json st) = ended st"
  unfolding emit_output_def
  by (simp add: ended_fold split: option.splits json.splits)

lemma ended_emitFunctionCall [simp]: "ended (emitFunctionCall P n obj st) = ended st"
  by (simp add: emitFunctionCall_def split_def Let_def)

lemma ended_emit_patch_or_generic [simp]: "ended (emit_patch_or_generic P n args st) = ended st"
  by (auto simp: emit_patch_or_generic_def split_def Let_def split: option.splits list.splits)

lemma ended_emitToolCall: "emitToolCall P nameIn argsIn st = Returns st' \<Longrightarrow> ended st' = ended st"
  by (auto simp: emitToolCall_def Let_def split: outcome.splits option.splits list.splits if_splits)

lemma ended_emit_tool_calls: "ended (fst (emit_tool_calls P calls st)) = ended st"
proof (induction calls arbitrary: st)
  case Nil
  show ?case by simp
next
  case (Cons call calls)
  show ?case
  proof (cases "emitToolCall P (call_name P (Some call)) (call_args (Some call)) st")
    case (Throws e)
    then show ?thesis by simp
  next
    case (Returns st1)
    from ended_emitToolCall [OF Returns] Cons.IH [of st1] Returns
    show ?thesis by simp
  qed
qed

lemma ended_emit_tools: "ended (fst (emit_tools P json st)) = ended st"
  by (auto simp: emit_tools_def Let_def ended_emit_tool_calls
      split: outcome.splits dest: ended_emitToolCall)

lemma sendCodexResponse_shape:
  "\<exists>mid. list_all is_item mid \<and>
     (case sendCodexResponse P json opts st of
        (st', None) \<Rightarrow>
          written st' = written st @ Created (Some (response_id P opts st)) # mid
            @ [Completed (Some (response_id P opts st)) (Some zero_usage)] \<and> ended st'
      | (st', Some e) \<Rightarrow>
          written st' = written st @ Created (Some (response_id P opts st)) # mid \<and>
          ended st' = ended st)"
proof -
  define p where "p = (case opts of Some (c # cs) \<Rightarrow> (c # cs, st) | _ \<Rightarrow> randId P ''resp'' st)"
  define st2 where "st2 = sse (Created (Some (fst p))) (snd p)"
  define st3 where "st3 = (case as_string (get (get json ''reasoning'') ''summary'') of
      Some s \<Rightarrow> if str_trim s \<noteq> [] then sse (ReasoningDelta s) st2 else st2 | None \<Rightarrow> st2)"
  define st4 where "st4 = (if isFinal json then pushAssistantText P (finalMsg P json) st3 else st3)"
  define st5 where "st5 = (if \<not> isFinal json then emit_content P json st4 else st4)"
  define st6 where "st6 = (if \<not> isFinal json then emit_output P json st5 else st5)"
  define q where "q = (if \<not> isFinal json then emit_tools P json st6 else (st6, None))"
  have rid: "fst p = response_id P opts st"
    by (auto simp: p_def response_id_def randId_def split: option.splits list.splits)
  have w2: "written st2 = written st @ [Created (Some (response_id P opts st))]"
    and e2: "ended st2 = ended st"
    by (auto simp: st2_def rid [symmetric] p_def sse_def randId_def split: option.splits list.splits)
  have "grows st2 st3"
    by (auto simp: st3_def grows_sse split: option.splits)
  moreover have "grows st3 st4" by (simp add: st4_def)
  moreover have "grows st4 st5" by (simp add: st5_def)
  moreover have "grows st5 st6" by (simp add: st6_def)
  moreover have "grows st6 (fst q)" by (simp add: q_def grows_emit_tools)
  ultimately have "grows st2 (fst q)" by (blast intro: grows_trans)
  then obtain mid where mid: "written (fst q) = written st2 @ mid" "list_all is_item mid"
    by (auto simp: grows_def)
  have "ended st3 = ended st2" by (simp add: st3_def split: option.splits)
  then have e7: "ended (fst q) = ended st"
    by (simp add: q_def st6_def st5_def st4_def e2 ended_emit_tools)
  have r: "sendCodexResponse P json opts st
      = (case snd q of Some e \<Rightarrow> (fst q, Some e)
         | None \<Rightarrow> (res_end (sse (Completed (Some (fst p)) (Some zero_usage)) (fst q)), None))"
    unfolding q_def st6_def st5_def st4_def st3_def st2_def p_def
    by (simp add: sendCodexResponse_def Let_def split_def)
  show ?thesis
  proof (cases "snd q")
    case None
    with r mid w2 rid show ?thesis
      by (intro exI [of _ mid]) (simp add: res_end_def sse_def)
  next
    case (Some e)
    with r mid w2 e7 show ?thesis
      by (intro exI [of _ mid]) simp
  qed
qed

lemma sendCodexResponse_no_calls:
  assumes "as_array (get json ''tool_calls'') = None \<or> as_array (get json ''tool_calls'') = Some []"
    and "\<not> truthy P (call_name P json)"
  shows "snd (sendCodexResponse P json opts st) = None"
proof -
  have "snd (emit_tools P json s) = None" for s
    using assms by (auto simp: emit_tools_def Let_def)
  then show ?thesis
    by (simp add: sendCodexResponse_def Let_def split_def split: option.splits)
qed


section \<open>The frame of created and completed events\<close>

lemma open_frame_snoc: "open_frame evs \<Longrightarrow> is_item ev \<Longrightarrow> open_frame (evs @ [ev])"
  by (cases evs) (simp_all add: open_frame_def)

lemma open_frame_complete: "open_frame evs \<Longrightarrow> framed (evs @ [Completed i u])"
  by (cases evs) (simp_all add: open_frame_def framed_def is_completed_def)

lemma hd_snoc: "evs \<noteq> [] \<Longrightarrow> hd (evs @ [ev]) = hd evs"
  by simp

lemma open_frame_nonempty: "open_frame evs \<Longrightarrow> evs \<noteq> []"
  by (auto simp: open_frame_def)

lemma framed_nonempty: "framed evs \<Longrightarrow> evs \<noteq> []"
  by (auto simp: framed_def)

lemma order_invariant_frame:
  "list_all is_item mid \<Longrightarrow> order_invariant (Created (Some rid) # mid @ [Completed (Some rid) u])"
  by (simp add: order_invariant_def framed_def is_created_def is_completed_def created_id_def
      completed_id_def)

lemma grows_open_frame:
  assumes "grows st st'" and "open_frame (written st)"
  shows "open_frame (written st')"
proof -
  from assms(1) obtain evs where "written st' = written st @ evs" "list_all is_item evs"
    by (auto simp: grows_def)
  with assms(2) show ?thesis
    by (cases "written st") (simp_all add: open_frame_def)
qed

subsection \<open>The generic adapter\<close>

lemma grows_map_tool_call [simp]: "grows st (map_tool_call P tc st)"
  by (auto simp: map_tool_call_def split_def Let_def grows_sse grows_sse_randId
      split: option.splits)

lemma grows_mapJsonToSse [simp]: "grows st (mapJsonToSse P obj st)"
proof -
  define st1 where "st1 = (case as_string (get (get (Some obj) ''reasoning'') ''summary'') of
                   Some s \<Rightarrow> if str_trim s \<noteq> [] then sse (ReasoningDelta (str_trim s)) st else st
                 | None \<Rightarrow> st)"
  define tools where "tools = (case as_array (get (Some obj) ''tool_calls'') of Some ts \<Rightarrow> ts | None \<Rightarrow> [])"
  define st2 where "st2 = fold (map_tool_call P) tools st1"
  have "grows st st1" by (auto simp: st1_def grows_sse split: option.splits)
  moreover have "grows st1 st2" unfolding st2_def by (rule grows_fold) simp
  moreover have "grows st2 (mapJsonToSse P obj st)"
    unfolding mapJsonToSse_def Let_def st2_def tools_def st1_def
    by (rule grows_fold) (auto simp: grows_sse split: option.splits)
  ultimately show ?thesis by (blast intro: grows_trans)
qed

lemma adapter_handler_shape:
  "\<exists>mid. list_all is_item mid \<and>
     written (adapter_handler P reply)
       = Created (Some (''resp_'' @ fresh_suffix P 0)) # mid
           @ [Completed (Some (''resp_'' @ fresh_suffix P 0)) (Some zero_usage)] \<and>
     ended (adapter_handler P reply)"
proof -
  define st2 where "st2 = sse (Created (Some (fst (randId P ''resp'' new_stream)))) (snd (randId P ''resp'' new_stream))"
  define st3 where "st3 = (if truthy P (Some (tryParseJson_adapter P reply))
      then mapJsonToSse P (tryParseJson_adapter P reply) st2
      else sse (Message (JStr reply)) st2)"
  have w2: "written st2 = [Created (Some (''resp_'' @ fresh_suffix P 0))]"
    by (simp add: st2_def randId_def sse_def new_stream_def)
  have "grows st2 st3" by (simp add: st3_def grows_sse)
  then obtain mid where mid: "written st3 = written st2 @ mid" "list_all is_item mid"
    by (auto simp: grows_def)
  have "adapter_handler P reply
      = res_end (sse (Completed (Some (fst (randId P ''resp'' new_stream))) (Some zero_usage)) st3)"
    unfolding st3_def st2_def by (simp add: adapter_handler_def Let_def split_def)
  with mid w2 show ?thesis
    by (intro exI [of _ mid]) (simp add: res_end_def sse_def randId_def new_stream_def)
qed

subsection \<open>The proxy\<close>

lemma grows_emit_patch_call [simp]: "grows st (emit_patch_call P patch st)"
  by (simp add: emit_patch_call_def split_def Let_def grows_sse_randId)

lemma grows_proxy_map_text [simp]: "grows st (proxy_map_text P env text0 st)"
proof -
  have deltas: "grows s (fold (\<lambda>part st. sse (TextDelta part) st) ds s)" for s ds
    by (rule grows_fold) (simp add: grows_sse)
  have msg: "grows s (sse (Message (JStr t)) (fold (\<lambda>part st. sse (TextDelta part) st) ds s))" for s t ds
    using grows_trans [OF deltas [of s ds], of "sse (Message (JStr t)) (fold (\<lambda>part st. sse (TextDelta part) st) ds s)"]
    by (simp add: grows_sse)
  show ?thesis
    unfolding proxy_map_text_def
    by (auto simp: Let_def msg intro: grows_trans split: option.splits list.splits)
qed

lemma handleResponses_shape:
  "\<exists>mid. list_all is_item mid \<and>
     (case handleResponses P env upstream of
        (st', None) \<Rightarrow>
          written st' = Created (Some (''resp_'' @ fresh_suffix P 0)) # mid
            @ [Completed (Some (''resp_'' @ fresh_suffix P 0)) (Some zero_usage)] \<and> ended st'
      | (st', Some e) \<Rightarrow>
          written st' = [Created (Some (''resp_'' @ fresh_suffix P 0))] \<and> \<not> ended st')"
proof -
  define rid where "rid = ''resp_'' @ fresh_suffix P 0"
  define st2 where "st2 = sse (Created (Some rid)) (snd (randId P ''resp'' new_stream))"
  have w2: "written st2 = [Created (Some rid)]" "\<not> ended st2"
    by (simp_all add: st2_def randId_def sse_def new_stream_def)
  have fst_rid: "fst (randId P ''resp'' new_stream) = rid"
    by (simp add: rid_def randId_def new_stream_def)
  define reply where "reply = (if mock_qwen env
                   then Resolved (Some (JStr ''This is a mocked Qwen response used for local testing without internet.''))
                   else upstream)"
  have r: "handleResponses P env upstream =
      (case reply of
           Rejected m \<Rightarrow>
             (res_end (sse (Completed (Some rid) (Some zero_usage))
                (sse (Failed (JStr (if m \<noteq> [] then m else ''Upstream error''))) st2)), None)
         | Resolved ft \<Rightarrow>
             (case (case ft of
                      Some v \<Rightarrow> if truthy P ft then js_toString P v else Returns []
                    | None \<Rightarrow> Returns []) of
                Throws e \<Rightarrow> (st2, Some e)
              | Returns text0 \<Rightarrow>
                  (res_end (sse (Completed (Some rid) (Some zero_usage))
                     (proxy_map_text P env text0 st2)), None)))"
    unfolding reply_def st2_def
    by (simp add: handleResponses_def Let_def split_def fst_rid split: promise.splits outcome.splits)
  show ?thesis
  proof (cases reply)
    case (Rejected m)
    with r w2 show ?thesis
      by (intro exI [of _ "[Failed (JStr (if m \<noteq> [] then m else ''Upstream error''))]"])
        (simp add: res_end_def sse_def rid_def)
  next
    case (Resolved ft)
    show ?thesis
    proof (cases "case ft of
                      Some v \<Rightarrow> if truthy P ft then js_toString P v else Returns []
                    | None \<Rightarrow> Returns []")
      case (Throws e)
      with r Resolved w2 show ?thesis
        by (intro exI [of _ "[]"]) (simp add: rid_def)
    next
      case (Returns text0)
      have "grows st2 (proxy_map_text P env text0 st2)" by simp
      then obtain mid where mid: "written (proxy_map_text P env text0 st2) = written st2 @ mid"
          "list_all is_item mid"
        by (auto simp: grows_def)
      with r Resolved Returns w2 show ?thesis
        by (intro exI [of _ mid]) (simp add: res_end_def sse_def rid_def)
    qed
  qed
qed

lemma handleResponses_rejected:
  assumes "\<not> mock_qwen env"
  shows "handleResponses P env (Rejected m) =
     (\<lparr>written = [Created (Some (''resp_'' @ fresh_suffix P 0)),
                  Failed (JStr (if m \<noteq> [] then m else ''Upstream error'')),
                  Completed (Some (''resp_'' @ fresh_suffix P 0)) (Some zero_usage)],
       ended = True, draws = 1\<rparr>, None)"
  using assms
  by (simp add: handleResponses_def Let_def split_def randId_def sse_def res_end_def new_stream_def)


section \<open>The two patch extractors\<close>

lemma regex_patch_match_spans:
  assumes "patch_spans t 0 sp"
  shows "regex_patch_match t = (case sp of [] \<Rightarrow> None | (s, e) # rest \<Rightarrow> Some (str_slice t s e))"
proof -
  have bne: "patch_begin \<noteq> []" and ene: "patch_end \<noteq> []"
    by (simp_all add: patch_begin_def patch_end_def)
  from assms show ?thesis
  proof cases
    case no_begin
    then have "indexOf t patch_begin 0 = None" by (simp add: indexOf_None [OF bne])
    with no_begin show ?thesis by (simp add: regex_patch_match_def)
  next
    case (unterminated s)
    then have b: "indexOf t patch_begin 0 = Some s" by (simp add: indexOf_Some [OF bne])
    from unterminated have "\<forall>i\<ge>s + length patch_begin. \<not> occurs_at patch_end t i" by simp
    then have "indexOf t patch_end (s + length patch_begin) = None"
      by (simp add: indexOf_None [OF ene])
    with b unterminated show ?thesis by (simp add: regex_patch_match_def)
  next
    case (span s e sp')
    then have b: "indexOf t patch_begin 0 = Some s" by (simp add: indexOf_Some [OF bne])
    from first_occD [OF span(2)] have ob: "occurs_at patch_begin t s" by simp
    from first_occD [OF span(3)] have se: "s \<le> e" and oe: "occurs_at patch_end t e" by simp_all
    from markers_disjoint [OF ob oe se] have d: "s + length patch_begin \<le> e" .
    from span(3) have "\<forall>j. s \<le> j \<and> j < e \<longrightarrow> \<not> occurs_at patch_end t j"
      by (simp add: first_occ_def)
    then have "\<forall>j. s + length patch_begin \<le> j \<and> j < e \<longrightarrow> \<not> occurs_at patch_end t j"
      by simp
    with d oe have "first_occ patch_end t (s + length patch_begin) e"
      by (simp add: first_occ_def)
    then have "indexOf t patch_end (s + length patch_begin) = Some e"
      by (simp add: indexOf_Some [OF ene])
    with b span(1) show ?thesis by (simp add: regex_patch_match_def)
  qed
qed

lemma written_fold_deltas:
  "written (fold (\<lambda>part st. sse (TextDelta part) st) ds st) = written st @ map TextDelta ds"
  by (induction ds arbitrary: st) (simp_all add: sse_def)

lemma proxy_map_text_plain:
  assumes "\<not> expect_json env"
  shows "written (proxy_map_text P env t st) = written st @
     (case regex_patch_match t of
        Some (c # cs) \<Rightarrow> [CustomToolCall ''apply_patch'' (c # cs) (''call_'' @ fresh_suffix P (draws st))]
      | _ \<Rightarrow> map TextDelta (chunk_deltas t 0) @ [Message (JStr t)])"
  using assms
  by (simp add: proxy_map_text_def emit_patch_call_def randId_def sse_def written_fold_deltas
      Let_def split: option.splits list.splits)

lemma well_formed_span_nonempty: "well_formed_span t (s, e) \<Longrightarrow> str_slice t s e \<noteq> []"
  by (auto simp: well_formed_span_def str_slice_def patch_begin_def)

lemma unterminated_indexOf:
  "indexOf ''x *** Begin Patch y'' patch_begin 0 = Some 2"
  "indexOf ''x *** Begin Patch y'' patch_end 2 = None"
  by code_simp+

text \<open>
  Claim C3. For every text, \<open>findPatchBlocks\<close> returns exactly the complete spans of the
  specification \<open>patch_spans\<close> (which determines them uniquely), in order of appearance:
  each block is the substring of the input between the start of a begin marker and the
  end of the next end marker, so it starts with the begin marker and ends with the end
  marker; the spans do not overlap; and a text in which no end marker follows the first
  begin marker yields no block at all. The regular expression of the proxy extracts the
  first of these spans only, and nothing when there is none; without the strict-JSON
  step the proxy then writes one \<^verbatim>\<open>apply_patch\<close> call with that span, or else the text
  as deltas and a message.
\<close>

theorem patch_extraction_spans:
  "\<exists>sp. patch_spans t 0 sp \<and> (\<forall>sp'. patch_spans t 0 sp' \<longrightarrow> sp' = sp) \<and>
     findPatchBlocks t = map (\<lambda>(s, e). str_slice t s e) sp \<and>
     regex_patch_match t = (case sp of [] \<Rightarrow> None | (s, e) # rest \<Rightarrow> Some (str_slice t s e)) \<and>
     (\<not> expect_json env \<longrightarrow>
        written (proxy_map_text P env t st) = written st @
          (case sp of
             [] \<Rightarrow> map TextDelta (chunk_deltas t 0) @ [Message (JStr t)]
           | (s, e) # rest \<Rightarrow>
               [CustomToolCall ''apply_patch'' (str_slice t s e) (''call_'' @ fresh_suffix P (draws st))])) \<and>
     sorted_wrt (\<lambda>a b. snd a \<le> fst b) sp \<and> list_all (well_formed_span t) sp \<and>
     (\<forall>s. first_occ patch_begin t 0 s \<and> (\<forall>i\<ge>s. \<not> occurs_at patch_end t i)
        \<longrightarrow> findPatchBlocks t = [] \<and> regex_patch_match t = None)"
proof -
  from loop_spans [of t 0 "[]"] obtain sp where sp: "patch_spans t 0 sp"
    "findPatchBlocks t = map (\<lambda>(s, e). str_slice t s e) sp"
    by (auto simp: findPatchBlocks_def)
  from patch_spans_shape [OF sp(1)] have shape: "sorted_wrt (\<lambda>a b. snd a \<le> fst b) sp"
    "list_all (well_formed_span t) sp" by (simp_all add: list_all_iff)
  have u: "\<forall>sp'. patch_spans t 0 sp' \<longrightarrow> sp' = sp"
    using sp(1) by (blast intro: patch_spans_unique)
  note rx = regex_patch_match_spans [OF sp(1)]
  have px: "written (proxy_map_text P env t st) = written st @
          (case sp of
             [] \<Rightarrow> map TextDelta (chunk_deltas t 0) @ [Message (JStr t)]
           | (s, e) # rest \<Rightarrow>
               [CustomToolCall ''apply_patch'' (str_slice t s e) (''call_'' @ fresh_suffix P (draws st))])"
    if ne: "\<not> expect_json env"
  proof (cases sp)
    case Nil
    with rx proxy_map_text_plain [OF ne, of P t st] show ?thesis by simp
  next
    case (Cons a rest)
    obtain s e where a: "a = (s, e)" by (cases a)
    from shape(2) Cons a have "str_slice t s e \<noteq> []"
      by (simp add: well_formed_span_nonempty)
    then obtain c cs where "str_slice t s e = c # cs" by (cases "str_slice t s e") auto
    with rx Cons a proxy_map_text_plain [OF ne, of P t st] show ?thesis by simp
  qed
  have un: "findPatchBlocks t = [] \<and> regex_patch_match t = None"
    if "first_occ patch_begin t 0 s" "\<forall>i\<ge>s. \<not> occurs_at patch_end t i" for s
  proof -
    from that have "patch_spans t 0 []" by (rule patch_spans.unterminated)
    with u have "sp = []" by simp
    with sp(2) rx show ?thesis by simp
  qed
  from sp shape u rx px un show ?thesis by blast
qed

theorem patch_extraction_spans_witness:
  "(\<exists>sp. patch_spans ''a*** Begin Patch+x*** End Patch b *** Begin Patch c'' 0 sp \<and>
      findPatchBlocks ''a*** Begin Patch+x*** End Patch b *** Begin Patch c'' =
        map (\<lambda>(s, e). str_slice ''a*** Begin Patch+x*** End Patch b *** Begin Patch c'' s e) sp \<and>
      list_all (well_formed_span ''a*** Begin Patch+x*** End Patch b *** Begin Patch c'') sp) \<and>
   findPatchBlocks ''a*** Begin Patch+x*** End Patch b *** Begin Patch c''
     = [''*** Begin Patch+x*** End Patch''] \<and>
   regex_patch_match ''a*** Begin Patch+x*** End Patch b *** Begin Patch c''
     = Some ''*** Begin Patch+x*** End Patch'' \<and>
   \<not> expect_json \<lparr>mock_qwen = False, expect_json = False\<rparr> \<and>
   written (proxy_map_text example_platform \<lparr>mock_qwen = False, expect_json = False\<rparr>
      ''a*** Begin Patch+x*** End Patch b *** Begin Patch c'' new_stream)
     = [CustomToolCall ''apply_patch'' ''*** Begin Patch+x*** End Patch'' ''call_0''] \<and>
   indexOf ''x *** Begin Patch y'' patch_begin 0 = Some 2 \<and>
   indexOf ''x *** Begin Patch y'' patch_end 2 = None \<and>
   findPatchBlocks ''x *** Begin Patch y'' = [] \<and>
   regex_patch_match ''x *** Begin Patch y'' = None"
proof -
  let ?T = "''a*** Begin Patch+x*** End Patch b *** Begin Patch c''"
  let ?U = "''x *** Begin Patch y''"
  let ?E = "\<lparr>mock_qwen = False, expect_json = False\<rparr>"
  have bne: "patch_begin \<noteq> []" and ene: "patch_end \<noteq> []"
    by (simp_all add: patch_begin_def patch_end_def)
  have fresh: "fresh_suffix example_platform (draws (new_stream :: nat stream)) = ''0''"
    by code_simp
  have ne: "\<not> expect_json ?E" by simp
  from patch_extraction_spans [where t = ?T and P = example_platform and env = ?E and st = new_stream]
  obtain sp where sp: "patch_spans ?T 0 sp"
    "findPatchBlocks ?T = map (\<lambda>(s, e). str_slice ?T s e) sp"
    "regex_patch_match ?T = (case sp of [] \<Rightarrow> None | (s, e) # rest \<Rightarrow> Some (str_slice ?T s e))"
    "\<not> expect_json ?E \<longrightarrow>
        written (proxy_map_text example_platform ?E ?T new_stream) = written (new_stream :: nat stream) @
          (case sp of
             [] \<Rightarrow> map TextDelta (chunk_deltas ?T 0) @ [Message (JStr ?T)]
           | (s, e) # rest \<Rightarrow>
               [CustomToolCall ''apply_patch'' (str_slice ?T s e)
                  (''call_'' @ fresh_suffix example_platform (draws (new_stream :: nat stream)))])"
    "list_all (well_formed_span ?T) sp"
    by (elim exE conjE)
  from sp(1,2,5) have first: "\<exists>sp. patch_spans ?T 0 sp \<and>
      findPatchBlocks ?T = map (\<lambda>(s, e). str_slice ?T s e) sp \<and>
      list_all (well_formed_span ?T) sp"
    by (intro exI conjI)
  from sp(2) findPatchBlocks_example
  have "map (\<lambda>(s, e). str_slice ?T s e) sp = [''*** Begin Patch+x*** End Patch'']" by simp
  then obtain s e where se: "sp = [(s, e)]" "str_slice ?T s e = ''*** Begin Patch+x*** End Patch''"
    by (cases sp) auto
  from sp(3) se have rx: "regex_patch_match ?T = Some ''*** Begin Patch+x*** End Patch''"
    by simp
  from sp(4) ne se fresh
  have px: "written (proxy_map_text example_platform ?E ?T new_stream)
     = [CustomToolCall ''apply_patch'' ''*** Begin Patch+x*** End Patch'' ''call_0'']"
    by (simp add: new_stream_def)
  from unterminated_indexOf have h: "first_occ patch_begin ?U 0 2"
      "\<forall>i\<ge>2. \<not> occurs_at patch_end ?U i"
    by (simp_all add: indexOf_Some [OF bne] indexOf_None [OF ene])
  from patch_extraction_spans [where t = ?U and P = example_platform and env = ?E and st = new_stream]
  obtain sp' where
    "\<forall>s. first_occ patch_begin ?U 0 s \<and> (\<forall>i\<ge>s. \<not> occurs_at patch_end ?U i)
        \<longrightarrow> findPatchBlocks ?U = [] \<and> regex_patch_match ?U = None"
    by (elim exE conjE)
  with h have un: "findPatchBlocks ?U = [] \<and> regex_patch_match ?U = None" by blast
  from first findPatchBlocks_example rx ne px unterminated_indexOf un
  show ?thesis by (intro conjI) simp_all
qed

text \<open>
  Claim C3 as stated fails for the proxy: on a text with two complete spans its regular
  expression yields the first span only, where \<open>findPatchBlocks\<close> yields both.
\<close>

theorem proxy_extracts_first_span_only:
  "findPatchBlocks ''*** Begin Patch one *** End Patch and *** Begin Patch two *** End Patch''
     = [''*** Begin Patch one *** End Patch'', ''*** Begin Patch two *** End Patch''] \<and>
   regex_patch_match ''*** Begin Patch one *** End Patch and *** Begin Patch two *** End Patch''
     = Some ''*** Begin Patch one *** End Patch'' \<and>
   written (fst (handleResponses example_platform \<lparr>mock_qwen = False, expect_json = False\<rparr>
      (Resolved (Some (JStr ''*** Begin Patch one *** End Patch and *** Begin Patch two *** End Patch'')))))
     = [Created (Some ''resp_0''),
        CustomToolCall ''apply_patch'' ''*** Begin Patch one *** End Patch'' ''call_1'',
        Completed (Some ''resp_0'') (Some zero_usage)]"
  by (intro conjI; code_simp)


section \<open>Properties of the Qwen bridge\<close>

lemma writeSse_fields [simp]:
  "finished (writeSse ev b) = finished b" "emittedAnyTool (writeSse ev b) = emittedAnyTool b"
  "fullText (writeSse ev b) = fullText b" "ended (out (writeSse ev b)) = ended (out b)"
  by (simp_all add: writeSse_def sse_def)

lemma fresh_id_fields [simp]:
  "finished (snd (fresh_id P pfx b)) = finished b"
  "emittedAnyTool (snd (fresh_id P pfx b)) = emittedAnyTool b"
  "fullText (snd (fresh_id P pfx b)) = fullText b"
  "ended (out (snd (fresh_id P pfx b))) = ended (out b)"
  "written (out (snd (fresh_id P pfx b))) = written (out b)"
  by (simp_all add: fresh_id_def)

lemma writeSse_written:
  "written (out (writeSse ev b)) = (if ended (out b) then written (out b) else written (out b) @ [ev])"
  by (simp add: writeSse_def sse_def)

lemma patch_call_fields [simp]:
  "finished (patch_call P i b) = finished b" "emittedAnyTool (patch_call P i b) = emittedAnyTool b"
  "fullText (patch_call P i b) = fullText b" "ended (out (patch_call P i b)) = ended (out b)"
  by (simp_all add: patch_call_def split_def Let_def)

lemma patch_call_written:
  "written (out (patch_call P i b))
    = (if ended (out b) then written (out b)
       else written (out b) @ [FunctionCall ''apply_patch'' (json_stringify P (JObj [(''input'', JStr i)]))
                                 (''call_'' @ fresh_suffix P (draws (out b)))])"
  by (simp add: patch_call_def split_def Let_def writeSse_written fresh_id_def)

lemma complete_response_fields [simp]:
  "finished (complete_response P pfx b)" "ended (out (complete_response P pfx b))"
  "emittedAnyTool (complete_response P pfx b) = emittedAnyTool b"
  "fullText (complete_response P pfx b) = fullText b"
  by (simp_all add: complete_response_def split_def Let_def markFinished_def res_end_def)

lemma complete_response_written:
  "written (out (complete_response P pfx b))
    = (if ended (out b) then written (out b)
       else written (out b) @ [Completed (Some (pfx @ ''_'' @ fresh_suffix P (draws (out b)))) None])"
  by (simp add: complete_response_def split_def Let_def markFinished_def res_end_def writeSse_written
      fresh_id_def)

lemma tool_calls_patch_call:
  "length (tool_calls_of (patch_call P i b)) \<le> Suc (length (tool_calls_of b))"
  by (simp add: tool_calls_of_def patch_call_written)

lemma tool_calls_complete [simp]:
  "tool_calls_of (complete_response P pfx b) = tool_calls_of b"
  by (simp add: tool_calls_of_def complete_response_written is_tool_call_def)

lemma emit_first_patch_first:
  "emit_first_patch P tcs b
    = (case List.map_filter (entry_patch P) tcs of
         [] \<Rightarrow> b
       | input # rest \<Rightarrow> (patch_call P input b)\<lparr>emittedAnyTool := True\<rparr>)"
  by (induction tcs) (auto simp: List.map_filter_simps split: option.splits)

lemma emit_first_patch_cases:
  "emit_first_patch P tcs b = b \<or>
   (\<exists>i. emit_first_patch P tcs b = (patch_call P i b)\<lparr>emittedAnyTool := True\<rparr>)"
  unfolding emit_first_patch_first by (auto split: list.splits)

lemma tool_calls_of_upd [simp]:
  "tool_calls_of (b\<lparr>emittedAnyTool := x\<rparr>) = tool_calls_of b"
  "tool_calls_of (b\<lparr>finished := y\<rparr>) = tool_calls_of b"
  "tool_calls_of (b\<lparr>fullText := z\<rparr>) = tool_calls_of b"
  by (simp_all add: tool_calls_of_def)

lemma emitToolCallsAndEnd_inv:
  assumes "bridge_inv b"
  shows "bridge_inv (emitToolCallsAndEnd P intent parsed b)"
proof (cases "finished b")
  case True
  with assms show ?thesis by (simp add: emitToolCallsAndEnd_def)
next
  case False
  with assms have e: "tool_calls_of b = []" "\<not> emittedAnyTool b"
    by (simp_all add: bridge_inv_def)
  define tcs where "tcs = (case as_array (get (Some parsed) ''tool_calls'') of Some ts \<Rightarrow> ts | None \<Rightarrow> [])"
  define b1 where "b1 = emit_first_patch P tcs b"
  define b2 where "b2 = (case intent of
      Some (c # cs) \<Rightarrow> if \<not> emittedAnyTool b1 then patch_call P (synthesized_patch (c # cs)) b1 else b1
    | _ \<Rightarrow> b1)"
  have r: "emitToolCallsAndEnd P intent parsed b = complete_response P ''resp'' b2"
    unfolding tcs_def b1_def b2_def using False by (simp add: emitToolCallsAndEnd_def Let_def)
  from emit_first_patch_cases [of P tcs b]
  have "length (tool_calls_of b2) \<le> 1"
  proof
    assume "emit_first_patch P tcs b = b"
    then have "b1 = b" by (simp add: b1_def)
    then show ?thesis
      using e tool_calls_patch_call [of P _ b]
      by (auto simp: b2_def split: option.splits list.splits)
  next
    assume "\<exists>i. emit_first_patch P tcs b = (patch_call P i b)\<lparr>emittedAnyTool := True\<rparr>"
    then obtain i where i: "b1 = (patch_call P i b)\<lparr>emittedAnyTool := True\<rparr>"
      by (auto simp: b1_def)
    then have "b2 = b1"
      by (auto simp: b2_def split: option.splits list.splits)
    with i show ?thesis
      using e tool_calls_patch_call [of P i b] by simp
  qed
  then show ?thesis
    by (simp add: r bridge_inv_def)
qed

lemma fallback_timer_inv:
  assumes "bridge_inv b"
  shows "bridge_inv (fallback_timer P intent b)"
proof (cases "finished b \<or> emittedAnyTool b")
  case True
  with assms show ?thesis by (simp add: fallback_timer_def)
next
  case False
  with assms have e: "tool_calls_of b = []" by (simp add: bridge_inv_def)
  show ?thesis
    using False assms e tool_calls_patch_call [of P _ b]
    by (auto simp: fallback_timer_def bridge_inv_def split: option.splits list.splits)
qed

lemma onDelta_inv:
  assumes "bridge_inv b"
  shows "bridge_inv (onDelta P intent d b)"
proof -
  have "bridge_inv (b\<lparr>fullText := fullText b @ d\<rparr>)"
    using assms by (simp add: bridge_inv_def)
  then show ?thesis
    using assms by (simp add: onDelta_def Let_def emitToolCallsAndEnd_inv)
qed

lemma bridge_step_inv:
  assumes "bridge_inv b"
  shows "bridge_inv (bridge_step P intent step b)"
  using assms
  by (cases step) (simp_all add: bridge_step_def onDelta_inv fallback_timer_inv, simp add: bridge_inv_def)

lemma bridge_steps_inv:
  "bridge_inv b \<Longrightarrow> bridge_inv (fold (bridge_step P intent) steps b)"
  by (induction steps arbitrary: b) (simp_all add: bridge_step_inv)

lemma on_stream_end_inv:
  assumes "bridge_inv b"
  shows "bridge_inv (on_stream_end P intent b)"
proof (cases "finished b")
  case True
  with assms show ?thesis by (simp add: on_stream_end_def)
next
  case False
  with assms have e: "tool_calls_of b = []" by (simp add: bridge_inv_def)
  have "bridge_inv (complete_response P ''resp''
      (case findPatchBlocks (fullText b) of [] \<Rightarrow> b | patch # rest \<Rightarrow> patch_call P patch b))"
    using e tool_calls_patch_call [of P _ b]
    by (auto simp: bridge_inv_def split: list.splits)
  then show ?thesis
    using False assms by (simp add: on_stream_end_def Let_def emitToolCallsAndEnd_inv)
qed

lemma on_error_inv:
  assumes "bridge_inv b"
  shows "bridge_inv (on_error P m b)"
proof -
  have "tool_calls_of (writeSse (Message t) b) = tool_calls_of b" for t
    by (simp add: tool_calls_of_def writeSse_written is_tool_call_def)
  then show ?thesis
    using assms by (simp add: on_error_def Let_def bridge_inv_def)
qed

lemma bridge_start_inv: "bridge_inv (bridge_start new_stream)"
  by (simp add: bridge_inv_def bridge_start_def tool_calls_of_def new_stream_def sse_def is_tool_call_def)

lemma bridge_handler_inv: "bridge_inv (bridge_handler P intent run)"
  by (cases run)
    (simp_all add: bridge_handler_def Let_def on_error_inv on_stream_end_inv bridge_steps_inv
      bridge_start_inv split: option.splits)


lemma entry_patch_other_name:
  "get (Some tc) ''name'' \<noteq> Some (JStr ''apply_patch'') \<Longrightarrow> entry_patch P tc = None"
  by (simp add: entry_patch_def)

lemma entry_patch_Some:
  "entry_patch P tc = Some input \<Longrightarrow>
     get (Some tc) ''name'' = Some (JStr ''apply_patch'') \<and>
     get (get (Some tc) ''arguments'') ''input'' = Some (JStr input) \<and>
     str_includes input patch_begin \<and> str_includes input patch_end"
  by (auto simp: entry_patch_def split: if_splits option.splits json.splits)

lemma example_entries_patches:
  "List.map_filter (entry_patch example_platform) example_entries
     = [''*** Begin Patch one *** End Patch'', ''*** Begin Patch two *** End Patch'']"
  by code_simp


section \<open>The shape of the bridge's stream\<close>

lemma bridge_shape_fresh_id [simp]: "bridge_shape (snd (fresh_id P pfx b)) = bridge_shape b"
  by (simp add: bridge_shape_def fresh_id_def)

lemma finished_fresh_id [simp]: "finished (snd (fresh_id P pfx b)) = finished b"
  by (simp add: fresh_id_def)

lemma finished_writeSse [simp]: "finished (writeSse ev b) = finished b"
  by (simp add: writeSse_def)

lemma bridge_shape_writeSse:
  assumes "bridge_shape b" and "is_item ev" and "\<not> is_failed ev"
  shows "bridge_shape (writeSse ev b)"
proof (cases "ended (out b)")
  case True
  with assms show ?thesis by (simp add: writeSse_def)
next
  case False
  with assms(1) have nf: "\<not> finished b" and op: "open_frame (written (out b))"
    and cid: "created_id (hd (written (out b))) = None"
    and nfail: "list_all (\<lambda>ev. \<not> is_failed ev) (written (out b))"
    by (auto simp: bridge_shape_def)
  from op have ne: "written (out b) \<noteq> []" by (rule open_frame_nonempty)
  from False nf op cid nfail ne assms(2,3) show ?thesis
    by (simp add: bridge_shape_def writeSse_def sse_def open_frame_snoc)
qed

lemma bridge_shape_patch_call:
  "bridge_shape b \<Longrightarrow> bridge_shape (patch_call P input b)"
  by (simp add: patch_call_def split_def Let_def bridge_shape_writeSse is_failed_def)

lemma finished_patch_call [simp]: "finished (patch_call P input b) = finished b"
  by (simp add: patch_call_def split_def Let_def)

lemma bridge_shape_emittedAnyTool [simp]:
  "bridge_shape (b\<lparr>emittedAnyTool := x\<rparr>) = bridge_shape b"
  by (simp add: bridge_shape_def)

lemma bridge_shape_fullText [simp]:
  "bridge_shape (b\<lparr>fullText := x\<rparr>) = bridge_shape b"
  by (simp add: bridge_shape_def)

lemma bridge_shape_emit_first_patch:
  "bridge_shape b \<Longrightarrow> bridge_shape (emit_first_patch P tcs b)"
  by (induction tcs) (simp_all add: bridge_shape_patch_call split: option.splits)

lemma finished_emit_first_patch [simp]: "finished (emit_first_patch P tcs b) = finished b"
  by (induction tcs) (simp_all split: option.splits)

lemma bridge_shape_complete_response:
  assumes "bridge_shape b"
  shows "bridge_shape (complete_response P pfx b) \<and> finished (complete_response P pfx b)"
proof (cases "ended (out b)")
  case True
  with assms have "finished b" "framed (written (out b))"
      "completed_id (last (written (out b))) \<noteq> None"
    by (auto simp: bridge_shape_def)
  with assms True show ?thesis
    by (simp add: complete_response_def split_def Let_def writeSse_def markFinished_def
        fresh_id_def res_end_def bridge_shape_def)
next
  case False
  with assms have nf: "\<not> finished b" and op: "open_frame (written (out b))"
    and cid: "created_id (hd (written (out b))) = None"
    and nfail: "list_all (\<lambda>ev. \<not> is_failed ev) (written (out b))"
    by (auto simp: bridge_shape_def)
  from op have ne: "written (out b) \<noteq> []" by (rule open_frame_nonempty)
  from False nf op cid nfail ne show ?thesis
    by (simp add: complete_response_def split_def Let_def writeSse_def markFinished_def
        fresh_id_def res_end_def bridge_shape_def sse_def open_frame_complete is_failed_def
        completed_id_def)
qed

lemma bridge_shape_emitToolCallsAndEnd:
  assumes "bridge_shape b"
  shows "bridge_shape (emitToolCallsAndEnd P intent parsed b)"
proof (cases "finished b")
  case True
  with assms show ?thesis by (simp add: emitToolCallsAndEnd_def)
next
  case False
  define b1 where "b1 = emit_first_patch P (case as_array (get (Some parsed) ''tool_calls'') of
                            Some ts \<Rightarrow> ts | None \<Rightarrow> []) b"
  define b2 where "b2 = (case intent of
                     Some (c # cs) \<Rightarrow>
                       if \<not> emittedAnyTool b1 then patch_call P (synthesized_patch (c # cs)) b1 else b1
                   | _ \<Rightarrow> b1)"
  have "bridge_shape b1" unfolding b1_def using assms by (rule bridge_shape_emit_first_patch)
  then have "bridge_shape b2"
    by (auto simp: b2_def bridge_shape_patch_call split: option.splits list.splits)
  then have "bridge_shape (complete_response P ''resp'' b2)"
    by (simp add: bridge_shape_complete_response)
  moreover have "emitToolCallsAndEnd P intent parsed b = complete_response P ''resp'' b2"
    using False unfolding b2_def b1_def by (simp add: emitToolCallsAndEnd_def Let_def)
  ultimately show ?thesis by simp
qed

lemma finished_emitToolCallsAndEnd: "finished (emitToolCallsAndEnd P intent parsed b)"
proof (cases "finished b")
  case True
  then show ?thesis by (simp add: emitToolCallsAndEnd_def)
next
  case False
  then show ?thesis
    by (simp add: emitToolCallsAndEnd_def Let_def complete_response_def split_def markFinished_def)
qed

lemma bridge_shape_fallback_timer:
  "bridge_shape b \<Longrightarrow> bridge_shape (fallback_timer P intent b)"
  by (auto simp: fallback_timer_def bridge_shape_complete_response bridge_shape_patch_call
      split: option.splits list.splits)

lemma bridge_shape_onDelta:
  "bridge_shape b \<Longrightarrow> bridge_shape (onDelta P intent delta b)"
  by (simp add: onDelta_def Let_def bridge_shape_emitToolCallsAndEnd)

lemma bridge_shape_step:
  "bridge_shape b \<Longrightarrow> step \<noteq> ClientCloses \<Longrightarrow> bridge_shape (bridge_step P intent step b)"
  by (cases step) (simp_all add: bridge_step_def bridge_shape_onDelta bridge_shape_fallback_timer)

lemma bridge_shape_steps:
  "bridge_shape b \<Longrightarrow> ClientCloses \<notin> set steps \<Longrightarrow> bridge_shape (fold (bridge_step P intent) steps b)"
proof (induction steps arbitrary: b)
  case Nil
  then show ?case by simp
next
  case (Cons step steps)
  from Cons.prems have "bridge_shape (bridge_step P intent step b)"
    by (intro bridge_shape_step) auto
  with Cons.IH [of "bridge_step P intent step b"] Cons.prems(2) show ?case by simp
qed

lemma bridge_shape_on_stream_end:
  assumes "bridge_shape b"
  shows "bridge_shape (on_stream_end P intent b)"
proof (cases "finished b")
  case True
  with assms show ?thesis by (simp add: on_stream_end_def)
next
  case False
  have "bridge_shape (case findPatchBlocks (fullText b) of
                           patch # rest \<Rightarrow> patch_call P patch b
                         | [] \<Rightarrow> b)"
    using assms by (simp add: bridge_shape_patch_call split: list.splits)
  with False assms show ?thesis
    by (simp add: on_stream_end_def Let_def bridge_shape_emitToolCallsAndEnd
        bridge_shape_complete_response)
qed

lemma finished_on_stream_end: "finished (on_stream_end P intent b)"
proof (cases "finished b")
  case True
  then show ?thesis by (simp add: on_stream_end_def)
next
  case False
  then show ?thesis
    by (simp add: on_stream_end_def Let_def finished_emitToolCallsAndEnd
        complete_response_def split_def markFinished_def)
qed

lemma bridge_shape_on_error:
  assumes "bridge_shape b"
  shows "bridge_shape (on_error P m b) \<and> finished (on_error P m b)"
proof -
  have "bridge_shape (writeSse (Message (JStr (''Error: '' @ (if m \<noteq> [] then m else ''Unknown error'')))) b)"
    using assms by (intro bridge_shape_writeSse) (simp_all add: is_failed_def)
  then show ?thesis
    by (simp add: on_error_def Let_def bridge_shape_complete_response)
qed

lemma bridge_shape_start: "bridge_shape (bridge_start new_stream)"
  by (simp add: bridge_shape_def bridge_start_def new_stream_def sse_def open_frame_def
      is_created_def created_id_def is_failed_def)

lemma bridge_handler_shape:
  assumes "case run of SetupFails m \<Rightarrow> True | Streams steps fin \<Rightarrow> ClientCloses \<notin> set steps"
  shows "bridge_shape (bridge_handler P intent run) \<and> finished (bridge_handler P intent run)"
proof (cases run)
  case (SetupFails m)
  then show ?thesis
    by (simp add: bridge_handler_def bridge_shape_on_error bridge_shape_start)
next
  case (Streams steps fin)
  with assms have "bridge_shape (fold (bridge_step P intent) steps (bridge_start new_stream))"
    by (intro bridge_shape_steps bridge_shape_start) simp
  with Streams show ?thesis
    by (simp add: bridge_handler_def Let_def bridge_shape_on_error bridge_shape_on_stream_end
        finished_on_stream_end split: option.splits)
qed

lemma on_error_written:
  assumes "\<not> ended (out b)"
  shows "written (out (on_error P m b))
      = written (out b) @ [Message (JStr (''Error: '' @ (if m \<noteq> [] then m else ''Unknown error''))),
           Completed (Some (''resp_err_'' @ fresh_suffix P (draws (out b)))) None]"
    and "ended (out (on_error P m b))"
  using assms
  by (simp_all add: on_error_def Let_def complete_response_def split_def writeSse_def
      markFinished_def fresh_id_def res_end_def sse_def)

lemma on_error_ended:
  assumes "ended (out b)"
  shows "written (out (on_error P m b)) = written (out b)"
  using assms
  by (simp add: on_error_def Let_def complete_response_def split_def writeSse_def
      markFinished_def fresh_id_def res_end_def)


section \<open>The tool call of the bridge\<close>

lemma deltas_text_append: "deltas_text (xs @ ys) = deltas_text xs @ deltas_text ys"
  by (induction xs rule: deltas_text.induct) simp_all

lemma bridge_step_finished: "finished b \<Longrightarrow> bridge_step P intent s b = b"
  by (cases s) (simp_all add: bridge_step_def onDelta_def fallback_timer_def)

lemma bridge_steps_finished: "finished b \<Longrightarrow> fold (bridge_step P intent) steps b = b"
  by (induction steps) (simp_all add: bridge_step_finished)

lemma bridge_idle_start: "bridge_idle (bridge_start new_stream) []"
  by (simp add: bridge_idle_def bridge_start_def new_stream_def sse_def)

lemma bridge_idle_step:
  assumes "bridge_idle b t" and "\<not> finished (bridge_step P intent s b)"
  shows "bridge_idle (bridge_step P intent s b) (t @ deltas_text [s])"
proof (cases s)
  case (Delta d)
  show ?thesis
  proof (cases "d = []")
    case True
    with Delta assms show ?thesis by (simp add: bridge_step_def)
  next
    case False
    from assms(1) have nf: "\<not> finished b" by (simp add: bridge_idle_def)
    have fin: "finished (emitToolCallsAndEnd P intent parsed c)" for parsed c
      by (rule finished_emitToolCallsAndEnd)
    from assms(2) Delta False nf fin
    have "bridge_step P intent s b = b\<lparr>fullText := fullText b @ d\<rparr>"
      by (auto simp: bridge_step_def onDelta_def Let_def split: if_splits)
    with assms(1) Delta show ?thesis by (simp add: bridge_idle_def)
  qed
next
  case TimerFires
  from assms(1) have nf: "\<not> finished b" "\<not> emittedAnyTool b" by (simp_all add: bridge_idle_def)
  from assms(2) TimerFires nf have "bridge_step P intent s b = b"
    by (auto simp: bridge_step_def fallback_timer_def split: option.splits list.splits)
  with assms(1) TimerFires show ?thesis by simp
next
  case ClientCloses
  with assms(2) show ?thesis by (simp add: bridge_step_def)
qed

lemma bridge_idle_steps:
  "\<not> finished (fold (bridge_step P intent) steps (bridge_start new_stream)) \<Longrightarrow>
   bridge_idle (fold (bridge_step P intent) steps (bridge_start new_stream)) (deltas_text steps)"
proof (induction steps rule: rev_induct)
  case Nil
  show ?case by (simp add: bridge_idle_start)
next
  case (snoc s steps)
  define b where "b = fold (bridge_step P intent) steps (bridge_start new_stream)"
  from snoc.prems have nf: "\<not> finished (bridge_step P intent s b)" by (simp add: b_def)
  then have "\<not> finished b" by (auto simp: bridge_step_finished)
  with snoc.IH have "bridge_idle b (deltas_text steps)" by (simp add: b_def)
  from bridge_idle_step [OF this nf] show ?case
    by (simp add: b_def deltas_text_append)
qed

lemma patch_call_draws [simp]: "draws (out (patch_call P i b)) = Suc (draws (out b))"
  by (simp add: patch_call_def split_def Let_def writeSse_def fresh_id_def sse_def)

lemma patch_call_idle:
  assumes "bridge_idle b t"
  shows "written (out (complete_response P ''resp'' (patch_call P input b)))
      = reply_events_spec P (Some input)"
    and "written (out (complete_response P ''resp'' ((patch_call P input b)\<lparr>emittedAnyTool := True\<rparr>)))
      = reply_events_spec P (Some input)"
    and "written (out (complete_response P ''resp'' b)) = reply_events_spec P None"
  using assms
  by (simp_all add: bridge_idle_def reply_events_spec_def complete_response_written patch_call_written)

lemma emitToolCallsAndEnd_idle:
  assumes "bridge_idle b t"
  shows "written (out (emitToolCallsAndEnd P intent parsed b))
      = reply_events_spec P
          (case List.map_filter (entry_patch P)
                  (case as_array (get (Some parsed) ''tool_calls'') of Some ts \<Rightarrow> ts | None \<Rightarrow> []) of
             input # rest \<Rightarrow> Some input
           | [] \<Rightarrow> (case intent of Some (c # cs) \<Rightarrow> Some (synthesized_patch (c # cs)) | _ \<Rightarrow> None))"
proof -
  define tcs where "tcs = (case as_array (get (Some parsed) ''tool_calls'') of Some ts \<Rightarrow> ts | None \<Rightarrow> [])"
  from assms have nf: "\<not> finished b" and ne: "\<not> emittedAnyTool b" by (simp_all add: bridge_idle_def)
  show ?thesis
  proof (cases "List.map_filter (entry_patch P) tcs")
    case Nil
    then have "emit_first_patch P tcs b = b" by (simp add: emit_first_patch_first)
    with nf ne Nil patch_call_idle [OF assms] show ?thesis
      unfolding tcs_def
      by (simp add: emitToolCallsAndEnd_def Let_def split: option.splits list.splits)
  next
    case (Cons input rest)
    then have "emit_first_patch P tcs b = (patch_call P input b)\<lparr>emittedAnyTool := True\<rparr>"
      by (simp add: emit_first_patch_first)
    with nf Cons patch_call_idle(2) [OF assms] show ?thesis
      unfolding tcs_def
      by (simp add: emitToolCallsAndEnd_def Let_def split: option.splits list.splits)
  qed
qed

lemma on_stream_end_idle:
  assumes "bridge_idle b t"
  shows "written (out (on_stream_end P intent b)) = reply_events_spec P (reply_patch_spec P intent t)"
proof -
  from assms have nf: "\<not> finished b" and ft: "fullText b = t" by (simp_all add: bridge_idle_def)
  show ?thesis
  proof (cases "truthy P (Some (tryParseJson_bridge P t)) \<and>
      (truthy P (get (Some (tryParseJson_bridge P t)) ''tool_calls'') \<or>
       truthy P (get (Some (tryParseJson_bridge P t)) ''message''))")
    case True
    with nf ft emitToolCallsAndEnd_idle [OF assms, of P intent "tryParseJson_bridge P t"]
    show ?thesis
      by (simp add: on_stream_end_def reply_patch_spec_def Let_def)
  next
    case False
    with nf ft patch_call_idle(1,3) [OF assms] show ?thesis
      by (auto simp: on_stream_end_def reply_patch_spec_def Let_def split: list.splits)
  qed
qed

lemma early_parse_json:
  assumes "early_parse P txt"
  shows "truthy P (Some (tryParseJson_bridge P txt)) \<and>
      (truthy P (get (Some (tryParseJson_bridge P txt)) ''tool_calls'') \<or>
       truthy P (get (Some (tryParseJson_bridge P txt)) ''message''))"
  using assms
  by (auto simp: early_parse_def as_array_def truthy_def split: option.splits json.splits)

lemma onDelta_early:
  assumes "bridge_idle b t" and "d \<noteq> []" and "early_parse P (t @ d)"
  shows "written (out (bridge_step P intent (Delta d) b))
      = reply_events_spec P (reply_patch_spec P intent (t @ d))"
    and "finished (bridge_step P intent (Delta d) b)"
proof -
  define b1 where "b1 = b\<lparr>fullText := fullText b @ d\<rparr>"
  from assms(1) have nf: "\<not> finished b" and ft: "fullText b = t" by (simp_all add: bridge_idle_def)
  from assms(1) have idle: "bridge_idle b1 (t @ d)" by (simp add: bridge_idle_def b1_def)
  from assms(3) have ep: "50 < length (t @ d)" "str_includes (t @ d) ''tool_calls''"
    "truthy P (Some (tryParseJson_bridge P (t @ d)))"
    "(case as_array (get (Some (tryParseJson_bridge P (t @ d))) ''tool_calls'') of
        Some tcs \<Rightarrow> \<exists>tc\<in>set tcs. get (Some tc) ''name'' = Some (JStr ''apply_patch'')
      | None \<Rightarrow> False)"
    by (simp_all add: early_parse_def)
  from nf ft ep assms(2)
  have step: "bridge_step P intent (Delta d) b
      = emitToolCallsAndEnd P intent (tryParseJson_bridge P (t @ d)) b1"
    by (simp add: bridge_step_def onDelta_def Let_def b1_def)
  from early_parse_json [OF assms(3)] emitToolCallsAndEnd_idle [OF idle, of P intent "tryParseJson_bridge P (t @ d)"]
  show "written (out (bridge_step P intent (Delta d) b))
      = reply_events_spec P (reply_patch_spec P intent (t @ d))"
    by (simp add: step reply_patch_spec_def Let_def)
  show "finished (bridge_step P intent (Delta d) b)"
    by (simp add: step finished_emitToolCallsAndEnd)
qed

lemma timer_idle:
  assumes "bridge_idle b t"
  shows "written (out (bridge_step P (Some (c # cs)) TimerFires b))
      = reply_events_spec P (Some (synthesized_patch (c # cs)))"
    and "finished (bridge_step P (Some (c # cs)) TimerFires b)"
  using assms patch_call_idle(1) [OF assms, of P "synthesized_patch (c # cs)"]
  by (simp_all add: bridge_step_def fallback_timer_def bridge_idle_def)

lemma handler_after_finish:
  assumes "finished b" and "bridge_shape b"
  shows "written (out (case fin of
            Some m \<Rightarrow> on_error P m (fold (bridge_step P intent) later b)
          | None \<Rightarrow> on_stream_end P intent (fold (bridge_step P intent) later b))) = written (out b)"
proof -
  from assms have "ended (out b)" by (simp add: bridge_shape_def)
  with assms(1) show ?thesis
    by (simp add: bridge_steps_finished on_stream_end_def on_error_ended split: option.splits)
qed

lemma events_writeSse:
  "list_all bridge_event (written (out b)) \<Longrightarrow> bridge_event ev \<Longrightarrow>
   list_all bridge_event (written (out (writeSse ev b)))"
  by (simp add: writeSse_written)

lemma events_patch_call:
  "list_all bridge_event (written (out b)) \<Longrightarrow>
   list_all bridge_event (written (out (patch_call P i b)))"
  by (simp add: patch_call_written bridge_event_def)

lemma events_complete_response:
  "list_all bridge_event (written (out b)) \<Longrightarrow>
   list_all bridge_event (written (out (complete_response P pfx b)))"
  by (simp add: complete_response_written bridge_event_def)

lemma events_emit_first_patch:
  "list_all bridge_event (written (out b)) \<Longrightarrow>
   list_all bridge_event (written (out (emit_first_patch P tcs b)))"
  using emit_first_patch_cases [of P tcs b] by (auto simp: events_patch_call)

lemma events_emitToolCallsAndEnd:
  assumes "list_all bridge_event (written (out b))"
  shows "list_all bridge_event (written (out (emitToolCallsAndEnd P intent parsed b)))"
proof -
  define b1 where "b1 = emit_first_patch P (case as_array (get (Some parsed) ''tool_calls'') of
                            Some ts \<Rightarrow> ts | None \<Rightarrow> []) b"
  define b2 where "b2 = (case intent of
                     Some (c # cs) \<Rightarrow>
                       if \<not> emittedAnyTool b1 then patch_call P (synthesized_patch (c # cs)) b1 else b1
                   | _ \<Rightarrow> b1)"
  have "list_all bridge_event (written (out b1))"
    unfolding b1_def using assms by (rule events_emit_first_patch)
  then have "list_all bridge_event (written (out b2))"
    by (auto simp: b2_def events_patch_call split: option.splits list.splits)
  then have "list_all bridge_event (written (out (complete_response P ''resp'' b2)))"
    by (rule events_complete_response)
  then show ?thesis
    using assms unfolding b2_def b1_def by (simp add: emitToolCallsAndEnd_def Let_def)
qed

lemma events_step:
  assumes "list_all bridge_event (written (out b))"
  shows "list_all bridge_event (written (out (bridge_step P intent s b)))"
proof (cases s)
  case (Delta d)
  have "list_all bridge_event (written (out (b\<lparr>fullText := fullText b @ d\<rparr>)))"
    using assms by simp
  from events_emitToolCallsAndEnd [OF this] assms Delta show ?thesis
    by (simp add: bridge_step_def onDelta_def Let_def)
next
  case TimerFires
  with assms show ?thesis
    by (auto simp: bridge_step_def fallback_timer_def events_patch_call events_complete_response
        split: option.splits list.splits)
next
  case ClientCloses
  with assms show ?thesis by (simp add: bridge_step_def)
qed

lemma events_steps:
  "list_all bridge_event (written (out b)) \<Longrightarrow>
   list_all bridge_event (written (out (fold (bridge_step P intent) steps b)))"
  by (induction steps arbitrary: b) (simp_all add: events_step)

lemma events_on_stream_end:
  assumes "list_all bridge_event (written (out b))"
  shows "list_all bridge_event (written (out (on_stream_end P intent b)))"
proof -
  have "list_all bridge_event (written (out (complete_response P ''resp''
      (case findPatchBlocks (fullText b) of [] \<Rightarrow> b | patch # rest \<Rightarrow> patch_call P patch b))))"
    using assms by (auto simp: events_patch_call events_complete_response split: list.splits)
  with assms show ?thesis
    by (simp add: on_stream_end_def Let_def events_emitToolCallsAndEnd)
qed

lemma events_on_error:
  assumes "list_all bridge_event (written (out b))"
  shows "list_all bridge_event (written (out (on_error P m b)))"
  using assms
  by (simp add: on_error_def Let_def events_complete_response events_writeSse bridge_event_def)

lemma events_handler: "list_all bridge_event (written (out (bridge_handler P intent run)))"
proof -
  have s: "list_all bridge_event (written (out (bridge_start new_stream :: 'a bridge)))"
    by (simp add: bridge_start_def new_stream_def sse_def bridge_event_def)
  show ?thesis
    by (cases run)
      (simp_all add: bridge_handler_def Let_def events_on_error events_on_stream_end events_steps s
        split: option.splits)
qed

lemma bridge_event_kinds:
  assumes "bridge_event ev"
  shows "is_patch_call ev \<or> \<not> is_tool_call ev" and "\<not> is_failed ev"
  using assms
  by (cases ev; simp add: bridge_event_def is_patch_call_def is_tool_call_def is_failed_def)+

lemma only_handler: "patch_calls_only (written (out (bridge_handler P intent run)))"
  using events_handler [of P intent run]
  by (auto simp: patch_calls_only_def list_all_iff bridge_event_kinds)

lemma no_failed_handler: "list_all (\<lambda>ev. \<not> is_failed ev) (written (out (bridge_handler P intent run)))"
  using events_handler [of P intent run]
  by (auto simp: list_all_iff bridge_event_kinds)

lemma get_SomeD: "get v k = Some x \<Longrightarrow> \<exists>kvs. v = Some (JObj kvs) \<and> map_of kvs k = Some x"
  by (cases "(v, k)" rule: get.cases) auto

lemma entry_patch_iff:
  "entry_patch P tc = Some input \<longleftrightarrow>
     get (Some tc) ''name'' = Some (JStr ''apply_patch'') \<and>
     get (get (Some tc) ''arguments'') ''input'' = Some (JStr input) \<and>
     str_includes input patch_begin \<and> str_includes input patch_end"
proof
  assume "entry_patch P tc = Some input"
  then show "get (Some tc) ''name'' = Some (JStr ''apply_patch'') \<and>
     get (get (Some tc) ''arguments'') ''input'' = Some (JStr input) \<and>
     str_includes input patch_begin \<and> str_includes input patch_end"
    by (rule entry_patch_Some)
next
  assume a: "get (Some tc) ''name'' = Some (JStr ''apply_patch'') \<and>
     get (get (Some tc) ''arguments'') ''input'' = Some (JStr input) \<and>
     str_includes input patch_begin \<and> str_includes input patch_end"
  then obtain kvs where "get (Some tc) ''arguments'' = Some (JObj kvs)"
    "map_of kvs ''input'' = Some (JStr input)"
    by (blast dest: get_SomeD)
  with a show "entry_patch P tc = Some input"
    by (simp add: entry_patch_def)
qed

text \<open>
  Claim C10. Whatever the request and the course of the upstream stream (the timer, an
  error and a client that disconnects included), the Qwen bridge writes at most one
  tool-call event, and a tool call it writes is a \<^verbatim>\<open>function_call\<close> named
  \<^verbatim>\<open>apply_patch\<close>. As long as the handler has not finished it has written the created
  event only and holds the text of the deltas received. When the stream then ends without
  an error, the events written are those of the specification \<open>reply_events_spec\<close> for
  the patch \<open>reply_patch_spec\<close> chooses from that text: the input of the first entry named
  \<^verbatim>\<open>apply_patch\<close> whose input holds both markers, else the patch synthesized for the
  detected intent, and for a text without \<^verbatim>\<open>tool_calls\<close> and \<^verbatim>\<open>message\<close> the first
  patch block of the text. A delta that meets the condition of the early parse is
  answered at once in the same way, and a timer that fires with a detected intent with
  the synthesized patch; whatever follows writes nothing more. An entry yields a patch
  exactly when it is named \<^verbatim>\<open>apply_patch\<close> and the \<^verbatim>\<open>input\<close> of its arguments is a
  string holding both markers; an entry with any other name yields none.
\<close>

theorem bridge_tool_call_source:
  fixes P :: "'n platform"
  shows
  "length (filter is_tool_call (written (out (bridge_handler P intent run)))) \<le> 1 \<and>
   patch_calls_only (written (out (bridge_handler P intent run))) \<and>
   (\<not> finished (fold (bridge_step P intent) steps (bridge_start new_stream)) \<longrightarrow>
      written (out (fold (bridge_step P intent) steps (bridge_start new_stream))) = [Created None] \<and>
      fullText (fold (bridge_step P intent) steps (bridge_start new_stream)) = deltas_text steps \<and>
      written (out (bridge_handler P intent (Streams steps None)))
        = reply_events_spec P (reply_patch_spec P intent (deltas_text steps))) \<and>
   (\<not> finished (fold (bridge_step P intent) steps (bridge_start new_stream)) \<and> d \<noteq> [] \<and>
    early_parse P (deltas_text steps @ d) \<longrightarrow>
      written (out (bridge_handler P intent (Streams (steps @ Delta d # later) fin)))
        = reply_events_spec P (reply_patch_spec P intent (deltas_text steps @ d))) \<and>
   (\<not> finished (fold (bridge_step P intent) steps (bridge_start new_stream)) \<and>
    intent = Some (c # cs) \<longrightarrow>
      written (out (bridge_handler P intent (Streams (steps @ TimerFires # later) fin)))
        = reply_events_spec P (Some (synthesized_patch (c # cs)))) \<and>
   (get (Some tc) ''name'' \<noteq> Some (JStr ''apply_patch'') \<longrightarrow> entry_patch P tc = None) \<and>
   (entry_patch P tc = Some input \<longleftrightarrow>
      get (Some tc) ''name'' = Some (JStr ''apply_patch'') \<and>
      get (get (Some tc) ''arguments'') ''input'' = Some (JStr input) \<and>
      str_includes input patch_begin \<and> str_includes input patch_end)"
proof -
  define b where "b = fold (bridge_step P intent) steps (bridge_start new_stream)"
  have one: "length (filter is_tool_call (written (out (bridge_handler P intent run)))) \<le> 1"
    using bridge_handler_inv [of P intent run] by (simp add: bridge_inv_def tool_calls_of_def)
  have only: "patch_calls_only (written (out (bridge_handler P intent run)))"
    by (rule only_handler)
  have idle: "bridge_idle b (deltas_text steps)" if "\<not> finished b"
    using that unfolding b_def by (rule bridge_idle_steps)
  have sh: "bridge_shape (bridge_step P intent s b)" if "\<not> finished b" and "s \<noteq> ClientCloses" for s
  proof -
    from idle [OF that(1)] have "bridge_shape b"
      by (simp add: bridge_idle_def bridge_shape_def open_frame_def is_created_def created_id_def
          is_failed_def)
    then show ?thesis using that(2) by (rule bridge_shape_step)
  qed
  have run: "bridge_handler P intent (Streams (steps @ s # later) fin)
      = (case fin of
           Some m \<Rightarrow> on_error P m (fold (bridge_step P intent) later (bridge_step P intent s b))
         | None \<Rightarrow> on_stream_end P intent (fold (bridge_step P intent) later (bridge_step P intent s b)))"
    for s
    by (simp add: bridge_handler_def Let_def b_def split: option.splits)
  have c3: "written (out b) = [Created None] \<and> fullText b = deltas_text steps \<and>
      written (out (bridge_handler P intent (Streams steps None)))
        = reply_events_spec P (reply_patch_spec P intent (deltas_text steps))"
    if "\<not> finished b"
    using idle [OF that] on_stream_end_idle [OF idle [OF that], of P intent]
    by (simp add: bridge_idle_def bridge_handler_def Let_def b_def)
  have c4: "written (out (bridge_handler P intent (Streams (steps @ Delta d # later) fin)))
        = reply_events_spec P (reply_patch_spec P intent (deltas_text steps @ d))"
    if "\<not> finished b \<and> d \<noteq> [] \<and> early_parse P (deltas_text steps @ d)"
  proof -
    from that have nf: "\<not> finished b" and d: "d \<noteq> []"
      and ep: "early_parse P (deltas_text steps @ d)" by simp_all
    note e = onDelta_early [OF idle [OF nf] d ep, of intent]
    from handler_after_finish [OF e(2) sh [OF nf], where fin = fin and P = P and intent = intent and later = later] e(1)
    show ?thesis by (simp add: run)
  qed
  have c5: "written (out (bridge_handler P intent (Streams (steps @ TimerFires # later) fin)))
        = reply_events_spec P (Some (synthesized_patch (c # cs)))"
    if "\<not> finished b \<and> intent = Some (c # cs)"
  proof -
    from that have nf: "\<not> finished b" and i: "intent = Some (c # cs)" by simp_all
    note e = timer_idle [OF idle [OF nf], of P c cs]
    from handler_after_finish [OF e(2) sh [OF nf, unfolded i], where fin = fin and P = P and intent = "Some (c # cs)" and later = later] e(1)
    have "written (out (case fin of
            Some m \<Rightarrow> on_error P m (fold (bridge_step P (Some (c # cs))) later
                        (bridge_step P (Some (c # cs)) TimerFires b))
          | None \<Rightarrow> on_stream_end P (Some (c # cs)) (fold (bridge_step P (Some (c # cs))) later
                        (bridge_step P (Some (c # cs)) TimerFires b))))
        = reply_events_spec P (Some (synthesized_patch (c # cs)))"
      by simp
    then show ?thesis
      apply (unfold run)
      apply (unfold i)
      apply assumption
      done
  qed
  have c6: "entry_patch P tc = None" if "get (Some tc) ''name'' \<noteq> Some (JStr ''apply_patch'')"
    using that by (rule entry_patch_other_name)
  note c7 = entry_patch_iff [of P tc input]
  from one only c3 c4 c5 c6 c7 show ?thesis
    unfolding b_def by blast
qed

theorem bridge_tool_call_source_witness:
  "\<not> finished (fold (bridge_step example_platform None) [Delta ''plain '', Delta ''text'']
        (bridge_start new_stream)) \<and>
   written (out (bridge_handler example_platform None (Streams [Delta ''plain '', Delta ''text''] None)))
     = [Created None, Completed (Some ''resp_0'') None] \<and>
   \<not> finished (fold (bridge_step example_platform None)
        [Delta (take 40 (example_stringify patch_reply))] (bridge_start new_stream)) \<and>
   drop 40 (example_stringify patch_reply) \<noteq> [] \<and>
   early_parse example_platform
     (deltas_text [Delta (take 40 (example_stringify patch_reply))]
        @ drop 40 (example_stringify patch_reply)) \<and>
   written (out (bridge_handler example_platform None
      (Streams ([Delta (take 40 (example_stringify patch_reply))]
                  @ Delta (drop 40 (example_stringify patch_reply)) # [Delta ''junk'', TimerFires])
         (Some ''late''))))
     = [Created None,
        FunctionCall ''apply_patch''
          (example_stringify (JObj [(''input'', JStr ''*** Begin Patch one *** End Patch'')]))
          ''call_0'',
        Completed (Some ''resp_1'') None] \<and>
   \<not> finished (fold (bridge_step example_platform (Some ''src/math.js'')) [Delta ''par'']
        (bridge_start new_stream)) \<and>
   written (out (bridge_handler example_platform (Some ''src/math.js'')
      (Streams ([Delta ''par''] @ TimerFires # []) None)))
     = [Created None,
        FunctionCall ''apply_patch''
          (example_stringify (JObj [(''input'', JStr (synthesized_patch ''src/math.js''))]))
          ''call_0'',
        Completed (Some ''resp_1'') None] \<and>
   get (Some (hd example_entries)) ''name'' \<noteq> Some (JStr ''apply_patch'') \<and>
   entry_patch example_platform (hd example_entries) = None"
proof -
  let ?T = "example_stringify patch_reply"
  note a = bridge_tool_call_source [where P = example_platform and intent = None
      and steps = "[Delta ''plain '', Delta ''text'']"]
  note b = bridge_tool_call_source [where P = example_platform and intent = None
      and steps = "[Delta (take 40 ?T)]" and d = "drop 40 ?T"
      and later = "[Delta ''junk'', TimerFires]" and fin = "Some ''late''"
      and tc = "hd example_entries"]
  note c = bridge_tool_call_source [where P = example_platform and intent = "Some ''src/math.js''"
      and steps = "[Delta ''par'']" and c = "CHR ''s''" and cs = "''rc/math.js''"
      and later = "[]" and fin = None]
  have h1: "\<not> finished (fold (bridge_step example_platform None) [Delta ''plain '', Delta ''text'']
        (bridge_start new_stream))"
    by code_simp
  have h2: "\<not> finished (fold (bridge_step example_platform None) [Delta (take 40 ?T)]
        (bridge_start new_stream))"
    by code_simp
  have h3: "drop 40 ?T \<noteq> []" by code_simp
  have h4: "early_parse example_platform (deltas_text [Delta (take 40 ?T)] @ drop 40 ?T)"
    by code_simp
  have h5: "\<not> finished (fold (bridge_step example_platform (Some ''src/math.js'')) [Delta ''par'']
        (bridge_start new_stream))"
    by code_simp
  have h6: "Some ''src/math.js'' = Some (CHR ''s'' # ''rc/math.js'')" by simp
  have h7: "get (Some (hd example_entries)) ''name'' \<noteq> Some (JStr ''apply_patch'' :: nat json)"
    by code_simp
  have e1: "reply_events_spec example_platform
        (reply_patch_spec example_platform None (deltas_text [Delta ''plain '', Delta ''text'']))
      = [Created None, Completed (Some ''resp_0'') None]"
    by code_simp
  have e2: "reply_events_spec example_platform
        (reply_patch_spec example_platform None (deltas_text [Delta (take 40 ?T)] @ drop 40 ?T))
      = [Created None,
        FunctionCall ''apply_patch''
          (example_stringify (JObj [(''input'', JStr ''*** Begin Patch one *** End Patch'')]))
          ''call_0'',
        Completed (Some ''resp_1'') None]"
    by code_simp
  have e3: "reply_events_spec example_platform (Some (synthesized_patch (CHR ''s'' # ''rc/math.js'')))
      = [Created None,
        FunctionCall ''apply_patch''
          (example_stringify (JObj [(''input'', JStr (synthesized_patch ''src/math.js''))]))
          ''call_0'',
        Completed (Some ''resp_1'') None]"
    by code_simp
  from a h1 have "written (out (bridge_handler example_platform None
        (Streams [Delta ''plain '', Delta ''text''] None)))
      = reply_events_spec example_platform
          (reply_patch_spec example_platform None (deltas_text [Delta ''plain '', Delta ''text'']))"
    by blast
  then have c1: "written (out (bridge_handler example_platform None
        (Streams [Delta ''plain '', Delta ''text''] None)))
      = [Created None, Completed (Some ''resp_0'') None]"
    unfolding e1 .
  from b h2 h3 h4 have "written (out (bridge_handler example_platform None
      (Streams ([Delta (take 40 ?T)] @ Delta (drop 40 ?T) # [Delta ''junk'', TimerFires])
         (Some ''late''))))
      = reply_events_spec example_platform
        (reply_patch_spec example_platform None (deltas_text [Delta (take 40 ?T)] @ drop 40 ?T))"
    by blast
  then have c2: "written (out (bridge_handler example_platform None
      (Streams ([Delta (take 40 ?T)] @ Delta (drop 40 ?T) # [Delta ''junk'', TimerFires])
         (Some ''late''))))
      = [Created None,
        FunctionCall ''apply_patch''
          (example_stringify (JObj [(''input'', JStr ''*** Begin Patch one *** End Patch'')]))
          ''call_0'',
        Completed (Some ''resp_1'') None]"
    unfolding e2 .
  from c h5 h6 have "written (out (bridge_handler example_platform (Some ''src/math.js'')
      (Streams ([Delta ''par''] @ TimerFires # []) None)))
      = reply_events_spec example_platform (Some (synthesized_patch (CHR ''s'' # ''rc/math.js'')))"
    by blast
  then have c3: "written (out (bridge_handler example_platform (Some ''src/math.js'')
      (Streams ([Delta ''par''] @ TimerFires # []) None)))
     = [Created None,
        FunctionCall ''apply_patch''
          (example_stringify (JObj [(''input'', JStr (synthesized_patch ''src/math.js''))]))
          ''call_0'',
        Completed (Some ''resp_1'') None]"
    unfolding e3 .
  from b h7 have c4: "entry_patch example_platform (hd example_entries) = None"
    by blast
  from h1 c1 h2 h3 h4 c2 h5 c3 h7 c4 show ?thesis by blast
qed

text \<open>
  Claim C10 as stated fails: the bridge writes a \<^verbatim>\<open>function_call\<close> event where no entry
  of \<^verbatim>\<open>tool_calls\<close> is a patch entry. A reply whose only entry is a shell call, to a
  request with the intent to update \<^verbatim>\<open>src/math.js\<close>, is answered with the synthesized
  patch; a reply in plain text that holds a patch block is answered with that block.
\<close>

theorem bridge_call_without_patch_entry:
  "as_array (get (Some (tryParseJson_bridge example_platform (example_stringify shell_reply))) ''tool_calls'')
     = Some [JObj [(''name'', JStr ''shell''), (''arguments'', JObj [(''command'', JStr ''ls'')])]] \<and>
   entry_patch example_platform
     (JObj [(''name'', JStr ''shell''), (''arguments'', JObj [(''command'', JStr ''ls'')])]) = None \<and>
   written (out (bridge_handler example_platform (Some ''src/math.js'')
      (Streams [Delta (example_stringify shell_reply)] None)))
     = [Created None,
        FunctionCall ''apply_patch''
          (example_stringify (JObj [(''input'', JStr (synthesized_patch ''src/math.js''))]))
          ''call_0'',
        Completed (Some ''resp_1'') None] \<and>
   written (out (bridge_handler example_platform None
      (Streams [Delta ''Use this: *** Begin Patch one *** End Patch''] None)))
     = [Created None,
        FunctionCall ''apply_patch''
          (example_stringify (JObj [(''input'', JStr ''*** Begin Patch one *** End Patch'')]))
          ''call_0'',
        Completed (Some ''resp_1'') None]"
  by (intro conjI; code_simp)


section \<open>Order of the events and failures of the upstream\<close>

text \<open>
  An envelope whose tool call is named by an object with a \<^verbatim>\<open>toString\<close> entry: the
  conversion of the name throws, and the handler ends the stream with an error event.
\<close>

lemma sendCodexResponse_throws_example:
  "sendCodexResponse example_platform
     (Some (JObj [(''tool_calls'', JArr [JObj [(''name'', JObj [(''toString'', JNum 1)])]])])) None new_stream
   = (\<lparr>written = [Created (Some ''resp_0'')], ended = False, draws = 1\<rparr>, Some TypeError)"
  "written (fake_llm_handler example_platform
     (Returns (Some (JObj [(''tool_calls'', JArr [JObj [(''name'', JObj [(''toString'', JNum 1)])]])]))))
   = [Created (Some ''resp_0''), ErrorEvent]"
  by code_simp+

text \<open>
  Claim C1. The order invariant holds where the created event carries the response
  identifier. \<open>sendCodexResponse\<close> writes to a new response, when it returns, one created
  event, items and one completed event with the identifier of the created event, and ends
  the response; when the translation of a tool call throws, it leaves a created event and
  items, no completed event, and the response open (the handler then writes an
  \<^verbatim>\<open>error\<close> event). On a final envelope it returns. The handler of the generic adapter
  always writes such a sequence and ends the response. The Qwen bridge, on a run that the
  client does not close, writes one created event, items and one completed event and ends
  the response, but its created event carries no identifier while its completed event
  carries one: there the identifiers are not the same.
\<close>

theorem order_invariant_of_translators:
  fixes P :: "'n platform"
  shows "(case sendCodexResponse P json opts new_stream of
      (st', None) \<Rightarrow> order_invariant (written st') \<and> ended st'
    | (st', Some e) \<Rightarrow> open_frame (written st') \<and> \<not> ended st') \<and>
   (isFinal json \<longrightarrow> snd (sendCodexResponse P json opts new_stream) = None) \<and>
   order_invariant (written (adapter_handler P reply)) \<and> ended (adapter_handler P reply) \<and>
   (ClientCloses \<notin> set steps \<longrightarrow>
      framed (written (out (bridge_handler P intent (Streams steps fin)))) \<and>
      created_id (hd (written (out (bridge_handler P intent (Streams steps fin))))) = None \<and>
      completed_id (last (written (out (bridge_handler P intent (Streams steps fin))))) \<noteq> None \<and>
      ended (out (bridge_handler P intent (Streams steps fin))))"
proof (intro conjI impI)
  from sendCodexResponse_shape [where P = P and json = json and opts = opts and st = new_stream]
  obtain mid where both: "list_all is_item mid \<and>
     (case sendCodexResponse P json opts new_stream of
        (st', None) \<Rightarrow>
          written st' = written new_stream @ Created (Some (response_id P opts new_stream)) # mid
            @ [Completed (Some (response_id P opts new_stream)) (Some zero_usage)] \<and> ended st'
      | (st', Some e) \<Rightarrow>
          written st' = written new_stream @ Created (Some (response_id P opts new_stream)) # mid \<and>
          ended st' = ended (new_stream :: 'n stream))" ..
  from both have mid: "list_all is_item mid" by (rule conjunct1)
  note shape = both [THEN conjunct2]
  obtain st' exn where r: "sendCodexResponse P json opts new_stream = (st', exn)"
    by (cases "sendCodexResponse P json opts new_stream")
  show "case sendCodexResponse P json opts new_stream of
      (st', None) \<Rightarrow> order_invariant (written st') \<and> ended st'
    | (st', Some e) \<Rightarrow> open_frame (written st') \<and> \<not> ended st'"
  proof (cases exn)
    case None
    with r shape mid show ?thesis
      by (simp add: new_stream_def order_invariant_frame)
  next
    case (Some e)
    with r shape mid show ?thesis
      by (simp add: new_stream_def open_frame_def is_created_def)
  qed
next
  assume "isFinal json"
  then show "snd (sendCodexResponse P json opts new_stream) = None"
    by (rule sendCodexResponse_final(1))
next
  from adapter_handler_shape [where P = P and reply = reply]
  show "order_invariant (written (adapter_handler P reply))"
    by (auto simp: order_invariant_frame)
next
  from adapter_handler_shape [where P = P and reply = reply]
  show "ended (adapter_handler P reply)" by blast
next
  assume nc: "ClientCloses \<notin> set steps"
  define b where "b = bridge_handler P intent (Streams steps fin)"
  from nc have "bridge_shape b \<and> finished b"
    unfolding b_def by (intro bridge_handler_shape) simp
  then have "framed (written (out b))" "created_id (hd (written (out b))) = None"
    "completed_id (last (written (out b))) \<noteq> None" "ended (out b)"
    by (simp_all add: bridge_shape_def)
  then show "framed (written (out (bridge_handler P intent (Streams steps fin))))"
    "created_id (hd (written (out (bridge_handler P intent (Streams steps fin))))) = None"
    "completed_id (last (written (out (bridge_handler P intent (Streams steps fin))))) \<noteq> None"
    "ended (out (bridge_handler P intent (Streams steps fin)))"
    by (simp_all add: b_def)
qed

theorem order_invariant_of_translators_witness:
  "isFinal (Some final_example) \<and>
   snd (sendCodexResponse example_platform (Some final_example) None new_stream) = None \<and>
   order_invariant (written (fst (sendCodexResponse example_platform (Some final_example) None new_stream))) \<and>
   ClientCloses \<notin> set [Delta ''plain text'', TimerFires] \<and>
   framed (written (out (bridge_handler example_platform None
     (Streams [Delta ''plain text'', TimerFires] None)))) \<and>
   created_id (hd (written (out (bridge_handler example_platform None
     (Streams [Delta ''plain text'', TimerFires] None))))) = None"
proof -
  have fin: "isFinal (Some final_example)" by code_simp
  have nc: "ClientCloses \<notin> set [Delta ''plain text'', TimerFires]" by simp
  note t = order_invariant_of_translators [where P = example_platform and json = "Some final_example"
      and opts = None and reply = "''hello''" and steps = "[Delta ''plain text'', TimerFires]"
      and intent = None and fin = None]
  from t fin have r: "snd (sendCodexResponse example_platform (Some final_example) None new_stream) = None"
    by blast
  from t have "case sendCodexResponse example_platform (Some final_example) None new_stream of
      (st', None) \<Rightarrow> order_invariant (written st') \<and> ended st'
    | (st', Some e) \<Rightarrow> open_frame (written st') \<and> \<not> ended st'"
    by (rule conjunct1)
  with r have oi: "order_invariant (written (fst (sendCodexResponse example_platform (Some final_example) None new_stream)))"
    by (cases "sendCodexResponse example_platform (Some final_example) None new_stream") simp
  from t nc have "framed (written (out (bridge_handler example_platform None
     (Streams [Delta ''plain text'', TimerFires] None))))"
    "created_id (hd (written (out (bridge_handler example_platform None
     (Streams [Delta ''plain text'', TimerFires] None))))) = None"
    by blast+
  with fin r oi nc show ?thesis by blast
qed

text \<open>
  Claim C1 as stated fails for the Qwen bridge: on a plain reply it writes a created event
  without identifier and a completed event with a fresh one.
\<close>

theorem bridge_created_without_identifier:
  "written (out (bridge_handler example_platform None (Streams [Delta ''plain text''] None)))
     = [Created None, Completed (Some ''resp_0'') None] \<and>
   \<not> order_invariant (written (out (bridge_handler example_platform None (Streams [Delta ''plain text''] None))))"
proof -
  have w: "written (out (bridge_handler example_platform None (Streams [Delta ''plain text''] None)))
     = [Created None, Completed (Some ''resp_0'') None]"
    by code_simp
  show ?thesis
    unfolding w by (simp add: order_invariant_def created_id_def)
qed

text \<open>
  Claim C5. A failed upstream call is answered with a structured end of the stream, in two
  forms. In the proxy, when the call to the adapter rejects (and the mock is off), the
  response holds exactly the created event, a failed event with a non-empty message (the
  message of the error, or \<^verbatim>\<open>Upstream error\<close>) and a completed event with the
  identifier of the created event and zero usage, and is ended. In the Qwen bridge no
  failed event is ever written, whatever the run: a failure before the stream is answered with the created
  event, an assistant message \<^verbatim>\<open>Error: \<close> followed by the message of the error (or
  \<^verbatim>\<open>Unknown error\<close>) and a completed event with a fresh identifier and no usage, and
  the response is ended. A failure of the stream, when the client has not closed, depends
  on whether the handler has finished: when it has not, the same two events are appended
  to what was written; when it has (the early parse or the safety timer completed the
  response), nothing more is written, the response having been ended with its completed
  event.
\<close>

theorem upstream_failure_structured:
  "(\<not> mock_qwen env \<longrightarrow>
      handleResponses P env (Rejected m) =
        (\<lparr>written = [Created (Some (''resp_'' @ fresh_suffix P 0)),
                     Failed (JStr (if m \<noteq> [] then m else ''Upstream error'')),
                     Completed (Some (''resp_'' @ fresh_suffix P 0)) (Some zero_usage)],
          ended = True, draws = 1\<rparr>, None)) \<and>
   written (out (bridge_handler P intent (SetupFails m)))
     = [Created None, Message (JStr (''Error: '' @ (if m \<noteq> [] then m else ''Unknown error''))),
        Completed (Some (''resp_err_'' @ fresh_suffix P 0)) None] \<and>
   ended (out (bridge_handler P intent (SetupFails m))) \<and>
   list_all (\<lambda>ev. \<not> is_failed ev) (written (out (bridge_handler P intent run))) \<and>
   (ClientCloses \<notin> set steps \<longrightarrow>
      framed (written (out (bridge_handler P intent (Streams steps fin)))) \<and>
      ended (out (bridge_handler P intent (Streams steps fin)))) \<and>
   (ClientCloses \<notin> set steps \<and> \<not> finished (fold (bridge_step P intent) steps (bridge_start new_stream)) \<longrightarrow>
      written (out (bridge_handler P intent (Streams steps (Some m))))
        = written (out (fold (bridge_step P intent) steps (bridge_start new_stream)))
          @ [Message (JStr (''Error: '' @ (if m \<noteq> [] then m else ''Unknown error''))),
             Completed (Some (''resp_err_'' @ fresh_suffix P
               (draws (out (fold (bridge_step P intent) steps (bridge_start new_stream)))))) None]) \<and>
   (ClientCloses \<notin> set steps \<and> finished (fold (bridge_step P intent) steps (bridge_start new_stream)) \<longrightarrow>
      written (out (bridge_handler P intent (Streams steps (Some m))))
        = written (out (fold (bridge_step P intent) steps (bridge_start new_stream))))"
proof (intro conjI impI)
  assume "\<not> mock_qwen env"
  then show "handleResponses P env (Rejected m) =
        (\<lparr>written = [Created (Some (''resp_'' @ fresh_suffix P 0)),
                     Failed (JStr (if m \<noteq> [] then m else ''Upstream error'')),
                     Completed (Some (''resp_'' @ fresh_suffix P 0)) (Some zero_usage)],
          ended = True, draws = 1\<rparr>, None)"
    by (rule handleResponses_rejected)
next
  have ne: "\<not> ended (out (bridge_start new_stream))"
    by (simp add: bridge_start_def new_stream_def sse_def)
  from on_error_written [OF ne, where P = P and m = m]
  show "written (out (bridge_handler P intent (SetupFails m)))
     = [Created None, Message (JStr (''Error: '' @ (if m \<noteq> [] then m else ''Unknown error''))),
        Completed (Some (''resp_err_'' @ fresh_suffix P 0)) None]"
    and "ended (out (bridge_handler P intent (SetupFails m)))"
    by (simp_all add: bridge_handler_def bridge_start_def new_stream_def sse_def)
next
  show "list_all (\<lambda>ev. \<not> is_failed ev) (written (out (bridge_handler P intent run)))"
    by (rule no_failed_handler)
next
  assume nc: "ClientCloses \<notin> set steps"
  then have "bridge_shape (bridge_handler P intent (Streams steps fin))
      \<and> finished (bridge_handler P intent (Streams steps fin))"
    by (intro bridge_handler_shape) simp
  then show "framed (written (out (bridge_handler P intent (Streams steps fin))))"
    and "ended (out (bridge_handler P intent (Streams steps fin)))"
    by (simp_all add: bridge_shape_def)
next
  assume a: "ClientCloses \<notin> set steps \<and> \<not> finished (fold (bridge_step P intent) steps (bridge_start new_stream))"
  define b where "b = fold (bridge_step P intent) steps (bridge_start new_stream)"
  from a have "bridge_shape b" unfolding b_def
    by (intro bridge_shape_steps bridge_shape_start) simp
  with a have "\<not> ended (out b)" by (simp add: bridge_shape_def b_def)
  from on_error_written(1) [OF this, where P = P and m = m]
  show "written (out (bridge_handler P intent (Streams steps (Some m))))
        = written (out (fold (bridge_step P intent) steps (bridge_start new_stream)))
          @ [Message (JStr (''Error: '' @ (if m \<noteq> [] then m else ''Unknown error''))),
             Completed (Some (''resp_err_'' @ fresh_suffix P
               (draws (out (fold (bridge_step P intent) steps (bridge_start new_stream)))))) None]"
    by (simp add: bridge_handler_def Let_def b_def)
next
  assume a: "ClientCloses \<notin> set steps \<and> finished (fold (bridge_step P intent) steps (bridge_start new_stream))"
  define b where "b = fold (bridge_step P intent) steps (bridge_start new_stream)"
  from a have sh: "bridge_shape b" unfolding b_def
    by (intro bridge_shape_steps bridge_shape_start) simp
  with a have "ended (out b)" by (simp add: bridge_shape_def b_def)
  from on_error_ended [OF this, where P = P and m = m]
  show "written (out (bridge_handler P intent (Streams steps (Some m))))
        = written (out (fold (bridge_step P intent) steps (bridge_start new_stream)))"
    by (simp add: bridge_handler_def Let_def b_def)
qed

theorem upstream_failure_structured_witness:
  "\<not> mock_qwen \<lparr>mock_qwen = False, expect_json = False\<rparr> \<and>
   handleResponses example_platform \<lparr>mock_qwen = False, expect_json = False\<rparr> (Rejected ''connect ECONNREFUSED'')
     = (\<lparr>written = [Created (Some ''resp_0''), Failed (JStr ''connect ECONNREFUSED''),
                    Completed (Some ''resp_0'') (Some zero_usage)],
         ended = True, draws = 1\<rparr>, None) \<and>
   ClientCloses \<notin> set [Delta ''par''] \<and>
   \<not> finished (fold (bridge_step example_platform None) [Delta ''par''] (bridge_start new_stream)) \<and>
   written (out (bridge_handler example_platform None (Streams [Delta ''par''] (Some ''socket hang up''))))
     = [Created None, Message (JStr ''Error: socket hang up''), Completed (Some ''resp_err_0'') None] \<and>
   ClientCloses \<notin> set [TimerFires] \<and>
   finished (fold (bridge_step example_platform (Some ''src/math.js'')) [TimerFires] (bridge_start new_stream)) \<and>
   written (out (bridge_handler example_platform (Some ''src/math.js'')
      (Streams [TimerFires] (Some ''socket hang up''))))
     = [Created None,
        FunctionCall ''apply_patch''
          (json_stringify example_platform (JObj [(''input'', JStr (synthesized_patch ''src/math.js''))]))
          ''call_0'',
        Completed (Some ''resp_1'') None]"
proof -
  note t = upstream_failure_structured [where P = example_platform
      and env = "\<lparr>mock_qwen = False, expect_json = False\<rparr>" and m = "''connect ECONNREFUSED''"
      and steps = "[Delta ''par'']" and intent = None and fin = None]
  note u = upstream_failure_structured [where P = example_platform
      and env = "\<lparr>mock_qwen = False, expect_json = False\<rparr>" and m = "''socket hang up''"
      and steps = "[Delta ''par'']" and intent = None and fin = None]
  note v = upstream_failure_structured [where P = example_platform
      and env = "\<lparr>mock_qwen = False, expect_json = False\<rparr>" and m = "''socket hang up''"
      and steps = "[TimerFires]" and intent = "Some ''src/math.js''" and fin = None]
  have h1: "\<not> mock_qwen \<lparr>mock_qwen = False, expect_json = False\<rparr>" by simp
  have h2: "ClientCloses \<notin> set [Delta ''par'']" by simp
  have h3: "\<not> finished (fold (bridge_step example_platform None) [Delta ''par''] (bridge_start new_stream))"
    by code_simp
  have h4: "ClientCloses \<notin> set [TimerFires]" by simp
  have h5: "finished (fold (bridge_step example_platform (Some ''src/math.js'')) [TimerFires] (bridge_start new_stream))"
    by code_simp
  have e1: "fresh_suffix example_platform 0 = ''0''" by code_simp
  have e2: "written (out (fold (bridge_step example_platform None) [Delta ''par''] (bridge_start new_stream)))
      = [Created None]" by code_simp
  have e3: "draws (out (fold (bridge_step example_platform None) [Delta ''par''] (bridge_start new_stream))) = 0"
    by code_simp
  have e4: "written (out (fold (bridge_step example_platform (Some ''src/math.js'')) [TimerFires] (bridge_start new_stream)))
     = [Created None,
        FunctionCall ''apply_patch''
          (json_stringify example_platform (JObj [(''input'', JStr (synthesized_patch ''src/math.js''))]))
          ''call_0'',
        Completed (Some ''resp_1'') None]"
    by code_simp
  from t h1 have c1: "handleResponses example_platform \<lparr>mock_qwen = False, expect_json = False\<rparr> (Rejected ''connect ECONNREFUSED'')
     = (\<lparr>written = [Created (Some ''resp_0''), Failed (JStr ''connect ECONNREFUSED''),
                    Completed (Some ''resp_0'') (Some zero_usage)],
         ended = True, draws = 1\<rparr>, None)"
    by (simp add: e1)
  from u h2 h3 have "written (out (bridge_handler example_platform None (Streams [Delta ''par''] (Some ''socket hang up''))))
        = written (out (fold (bridge_step example_platform None) [Delta ''par''] (bridge_start new_stream)))
          @ [Message (JStr (''Error: '' @ (if ''socket hang up'' \<noteq> [] then ''socket hang up'' else ''Unknown error''))),
             Completed (Some (''resp_err_'' @ fresh_suffix example_platform
               (draws (out (fold (bridge_step example_platform None) [Delta ''par''] (bridge_start new_stream)))))) None]"
    by blast
  then have c2: "written (out (bridge_handler example_platform None (Streams [Delta ''par''] (Some ''socket hang up''))))
     = [Created None, Message (JStr ''Error: socket hang up''), Completed (Some ''resp_err_0'') None]"
    unfolding e2 e3 e1 by simp
  from v h4 h5 have "written (out (bridge_handler example_platform (Some ''src/math.js'')
      (Streams [TimerFires] (Some ''socket hang up''))))
     = written (out (fold (bridge_step example_platform (Some ''src/math.js'')) [TimerFires] (bridge_start new_stream)))"
    by blast
  then have c3: "written (out (bridge_handler example_platform (Some ''src/math.js'')
      (Streams [TimerFires] (Some ''socket hang up''))))
     = [Created None,
        FunctionCall ''apply_patch''
          (json_stringify example_platform (JObj [(''input'', JStr (synthesized_patch ''src/math.js''))]))
          ''call_0'',
        Completed (Some ''resp_1'') None]"
    unfolding e4 .
  from h1 c1 h2 h3 c2 h4 h5 c3 show ?thesis by blast
qed

text \<open>
  Claim C5 as stated fails for the Qwen bridge: a refused connection is answered with an
  assistant message and a completed event without usage, and no failed event.
\<close>

theorem bridge_failure_without_failed_event:
  "written (out (bridge_handler example_platform None (SetupFails ''connect ECONNREFUSED'')))
     = [Created None, Message (JStr ''Error: connect ECONNREFUSED''), Completed (Some ''resp_err_0'') None] \<and>
   \<not> list_ex is_failed (written (out (bridge_handler example_platform None (SetupFails ''connect ECONNREFUSED'')))) \<and>
   completed_usage (last (written (out (bridge_handler example_platform None (SetupFails ''connect ECONNREFUSED''))))) = None"
proof -
  have w: "written (out (bridge_handler example_platform None (SetupFails ''connect ECONNREFUSED'')))
     = [Created None, Message (JStr ''Error: connect ECONNREFUSED''), Completed (Some ''resp_err_0'') None]"
    by code_simp
  show ?thesis
    unfolding w by (simp add: is_failed_def completed_usage_def)
qed


end
